theory Spec2Isabelle
  imports Main "HOL-Library.AList" "HOL-Library.Sublist" "HOL-Library.List_Lexorder"
    "HOL-Library.Char_ord"
begin

section \<open>Paths and the sync filter (main.ts, shouldSyncFile)\<close>

text \<open>
  Paths and remote ids are JavaScript strings. A JavaScript object used as a dictionary
  (\<^verbatim>\<open>settings.operations\<close>, \<^verbatim>\<open>settings.driveIdToPath\<close>) is an association list in
  insertion order with one pair per key: \<^verbatim>\<open>obj[k]\<close> is \<open>map_of obj k\<close>,
  \<^verbatim>\<open>obj[k] = v\<close> is \<open>AList.update k v obj\<close> (an existing key keeps its place, a new
  key goes last), \<^verbatim>\<open>delete obj[k]\<close> is \<open>AList.delete k obj\<close> and
  \<^verbatim>\<open>Object.entries(obj)\<close> is the list itself (JavaScript lists keys that are array
  indices first; paths and ids are taken not to be such keys). A string is a list of
  \<open>char\<close>; the patterns below are ASCII.
\<close>

type_synonym path = string
type_synonym drive_id = string
type_synonym content = string

definition startsWith :: "string \<Rightarrow> string \<Rightarrow> bool" where
  "startsWith s pre = prefix pre s"

definition endsWith :: "string \<Rightarrow> string \<Rightarrow> bool" where
  "endsWith s suf = prefix (rev suf) (rev s)"

fun includes_str :: "string \<Rightarrow> string \<Rightarrow> bool" where
  "includes_str [] pat = (pat = [])"
| "includes_str (c # cs) pat = (prefix pat (c # cs) \<or> includes_str cs pat)"

definition excludePatterns :: "string list" where
  "excludePatterns =
     [''.DS_Store'', ''.git/'', ''node_modules/'',
      ''.obsidian/workspace.json'', ''.obsidian/workspace-mobile.json'']"

definition shouldSyncFile :: "path \<Rightarrow> bool" where
  "shouldSyncFile p =
     (\<not> list_ex (\<lambda>pattern. if endsWith pattern ''/'' then startsWith p pattern
                            else includes_str p pattern) excludePatterns)"

section \<open>The Operation Log and the local mutation handlers (main.ts)\<close>

datatype operation = Create | Delete | Modify

type_synonym oplog = "(path \<times> operation) list"

text \<open>
  A \<^verbatim>\<open>TAbstractFile\<close> of the vault: a \<^verbatim>\<open>TFile\<close> with its \<^verbatim>\<open>stat.mtime\<close>, or a
  \<^verbatim>\<open>TFolder\<close> with the paths of its children.
\<close>

datatype abstract_file =
    is_TFile: TFile (file_path: path) nat
  | is_TFolder: TFolder (file_path: path) "path list"

fun with_path :: "path \<Rightarrow> abstract_file \<Rightarrow> abstract_file" where
  "with_path p (TFile _ m) = TFile p m"
| "with_path p (TFolder _ cs) = TFolder p cs"

definition handleCreate :: "abstract_file \<Rightarrow> oplog \<Rightarrow> oplog" where
  "handleCreate file ops =
     (if shouldSyncFile (file_path file) then
        (if map_of ops (file_path file) = Some Delete then
           (if is_TFile file then AList.update (file_path file) Modify ops
            else AList.delete (file_path file) ops)
         else AList.update (file_path file) Create ops)
      else ops)"

definition handleDelete :: "abstract_file \<Rightarrow> oplog \<Rightarrow> oplog" where
  "handleDelete file ops =
     (if shouldSyncFile (file_path file) then
        (if map_of ops (file_path file) = Some Create then AList.delete (file_path file) ops
         else AList.update (file_path file) Delete ops)
      else ops)"

definition handleModify :: "abstract_file \<Rightarrow> oplog \<Rightarrow> oplog" where
  "handleModify file ops =
     (if shouldSyncFile (file_path file) then
        (let operation = map_of ops (file_path file) in
         if operation = Some Create \<or> operation = Some Modify then ops
         else AList.update (file_path file) Modify ops)
      else ops)"

definition handleRename :: "abstract_file \<Rightarrow> path \<Rightarrow> oplog \<Rightarrow> oplog" where
  "handleRename file oldPath ops = handleCreate file (handleDelete (with_path oldPath file) ops)"

text \<open>The events the vault fires, and the handler registered for each in \<^verbatim>\<open>onload\<close>.\<close>

datatype event =
    Created abstract_file
  | Deleted abstract_file
  | Modified abstract_file
  | Renamed abstract_file path

fun handle :: "event \<Rightarrow> oplog \<Rightarrow> oplog" where
  "handle (Created f) ops = handleCreate f ops"
| "handle (Deleted f) ops = handleDelete f ops"
| "handle (Modified f) ops = handleModify f ops"
| "handle (Renamed f oldPath) ops = handleRename f oldPath ops"

definition replay :: "event list \<Rightarrow> oplog \<Rightarrow> oplog" where
  "replay evs ops = fold handle evs ops"

subsection \<open>The transition table of the specification (section 4.1), in its own words\<close>








section \<open>The plugin state and the host\<close>

text \<open>
  Every call that changes the local store or the remote store, every download and every
  notice shown to the user is recorded, in the order the calls are issued. The progress
  messages of the sync notice, the ribbon icon and the console output are not.
\<close>

datatype action =
    VaultCreateFolder path
  | VaultCreateBinary path content "nat option"
  | VaultModifyBinary path content "nat option"
  | AdapterWriteBinary path content "nat option"
  | TrashFile path
  | AdapterTrashLocal path
  | AdapterTrashSystem path
  | AdapterRemove path
  | AdapterRmdir path
  | DriveGetRootFolderId
  | DriveGetFile drive_id
  | DriveBatchDelete "drive_id option list"
  | DriveCreateFolder path "drive_id option"
  | DriveUploadFile path "drive_id option" content
  | DriveUpdateFile "drive_id option" content
  | DriveUpdateSettings "drive_id option" "(path \<times> operation) list" "(drive_id \<times> path) list"
  | ShowNotice string

text \<open>
  The plugin: \<^verbatim>\<open>settings\<close> (the Operation Log, the Remote-ID Index, the Sync Checkpoint),
  the \<^verbatim>\<open>syncing\<close> flag, and the calls issued so far. The refresh token and the
  persistence of the settings (\<^verbatim>\<open>saveSettings\<close>, debounced or not) are not part of it.
\<close>

record plugin =
  operations :: oplog
  driveIdToPath :: "(drive_id \<times> path) list"
  lastSyncedAt :: nat
  changesToken :: string
  syncing :: bool
  trace :: "action list"

datatype file_type = File_type | Folder_type

datatype trash_option = Trash_local | Trash_system | Trash_none

text \<open>
  What the local store answers at one moment: the vault's index
  (\<^verbatim>\<open>getAbstractFileByPath\<close>), the adapter (\<^verbatim>\<open>exists\<close>, \<^verbatim>\<open>stat\<close>, the number of
  entries \<^verbatim>\<open>list\<close> returns, \<^verbatim>\<open>readBinary\<close>) and the vault's configuration. A \<open>listing\<close>
  is what \<^verbatim>\<open>adapter.list\<close> answers for a folder (its files, and its folders each with its
  own listing), or the failure of the call; \<open>adapter_tree\<close> is the listing of the root.
\<close>

datatype listing = ListFailed | Listing "path list" "(path \<times> listing) list"

record local_store =
  getAbstractFileByPath :: "path \<Rightarrow> abstract_file option"
  adapter_tree :: listing
  adapter_exists :: "path \<Rightarrow> bool"
  adapter_stat :: "path \<Rightarrow> file_type option"
  adapter_list_size :: "path \<Rightarrow> nat"
  readBinary :: "path \<Rightarrow> content"
  trashOption :: trash_option
  configDir :: path

text \<open>
  Remote Object Metadata as \<^verbatim>\<open>searchFiles\<close> returns it: \<open>md_is_folder\<close> is
  \<^verbatim>\<open>mimeType === folderMimeType\<close> and \<open>md_path\<close> is \<^verbatim>\<open>properties?.path\<close>. One entry of
  the change feed is a \<open>change\<close>.
\<close>

record file_metadata =
  md_id :: drive_id
  md_is_folder :: bool
  md_path :: "path option"
  md_modifiedTime :: nat

record change =
  fileId :: drive_id
  removed :: bool

text \<open>
  What the drive client (helpers/drive, an external collaborator here) answers at one
  moment. A failure sentinel is \<open>None\<close> or \<open>False\<close>. \<open>searchConfig\<close> is the search for
  the objects flagged as config, each given by its \<^verbatim>\<open>properties.path\<close>.
\<close>

record remote_store =
  searchModifiedAfter :: "nat \<Rightarrow> file_metadata list option"
  searchHiddenFiles :: "file_metadata list"
  getChanges :: "string \<Rightarrow> change list option"
  getFile :: "drive_id \<Rightarrow> content"
  searchConfig :: "path list option"
  batchDelete :: "drive_id option list \<Rightarrow> bool"
  createFolderId :: "path \<Rightarrow> drive_id option"
  uploadFileId :: "path \<Rightarrow> drive_id option"
  updateFileOk :: "drive_id option \<Rightarrow> bool"
  getConfigFilesToSync :: "path list"
  getChangesStartToken :: "string option"
  checkConnection :: bool

text \<open>
  The host is everything outside the plugin: Obsidian, the drive and the user. After the
  calls issued so far it shows a local store and a remote store and tells the time
  (\<^verbatim>\<open>Date.now\<close>); for the latest local call it fires events, which run the handlers above
  before the call returns; and it answers the confirmation dialog of push. Nothing is
  assumed about any of these. A call to the local store is taken to return: an exception
  out of the vault or the adapter is not modelled.
\<close>

record host =
  store_after :: "action list \<Rightarrow> local_store"
  remote_after :: "action list \<Rightarrow> remote_store"
  fires :: "action list \<Rightarrow> event list"
  clock :: "action list \<Rightarrow> nat"
  confirmPush :: "(path \<times> operation) list \<Rightarrow> bool"

definition store :: "host \<Rightarrow> plugin \<Rightarrow> local_store" where
  "store h t = store_after h (trace t)"

definition remote :: "host \<Rightarrow> plugin \<Rightarrow> remote_store" where
  "remote h t = remote_after h (trace t)"

definition getFileByPath :: "local_store \<Rightarrow> path \<Rightarrow> abstract_file option" where
  "getFileByPath s p =
     (case getAbstractFileByPath s p of Some (TFile q m) \<Rightarrow> Some (TFile q m) | _ \<Rightarrow> None)"

definition getFolderByPath :: "local_store \<Rightarrow> path \<Rightarrow> abstract_file option" where
  "getFolderByPath s p =
     (case getAbstractFileByPath s p of Some (TFolder q cs) \<Rightarrow> Some (TFolder q cs) | _ \<Rightarrow> None)"

definition emit :: "action \<Rightarrow> plugin \<Rightarrow> plugin" where
  "emit a t = t\<lparr>trace := trace t @ [a]\<rparr>"

definition local_call :: "host \<Rightarrow> action \<Rightarrow> plugin \<Rightarrow> plugin" where
  "local_call h a t =
     (let tr = trace t @ [a]
      in t\<lparr>trace := tr, operations := replay (fires h tr) (operations t)\<rparr>)"

subsection \<open>The local-apply helpers of the plugin (main.ts)\<close>

text \<open>
  \<^verbatim>\<open>this.settings.operations[path] = oldOperation;
  if (!oldOperation) delete this.settings.operations[path];\<close>
\<close>

definition restoreOperation :: "operation option \<Rightarrow> path \<Rightarrow> plugin \<Rightarrow> plugin" where
  "restoreOperation oldOperation p t =
     (case oldOperation of
        Some k \<Rightarrow> t\<lparr>operations := AList.update p k (operations t)\<rparr>
      | None \<Rightarrow> t\<lparr>operations := AList.delete p (operations t)\<rparr>)"

definition createFolder :: "host \<Rightarrow> path \<Rightarrow> plugin \<Rightarrow> plugin" where
  "createFolder h p t =
     (let oldOperation = map_of (operations t) p
      in restoreOperation oldOperation p (local_call h (VaultCreateFolder p) t))"


definition modifyFile :: "host \<Rightarrow> abstract_file \<Rightarrow> content \<Rightarrow> nat option \<Rightarrow> plugin \<Rightarrow> plugin" where
  "modifyFile h file c modificationDate t =
     (let oldOperation = map_of (operations t) (file_path file)
      in restoreOperation oldOperation (file_path file)
           (local_call h (VaultModifyBinary (file_path file) c modificationDate) t))"

definition upsertFile :: "host \<Rightarrow> path \<Rightarrow> content \<Rightarrow> nat option \<Rightarrow> plugin \<Rightarrow> plugin" where
  "upsertFile h file c modificationDate t =
     (let oldOperation = map_of (operations t) file
      in restoreOperation oldOperation file (local_call h (AdapterWriteBinary file c modificationDate) t))"

definition deleteFile :: "host \<Rightarrow> abstract_file \<Rightarrow> plugin \<Rightarrow> plugin" where
  "deleteFile h file t =
     (let t1 = local_call h (TrashFile (file_path file)) t
      in t1\<lparr>operations := AList.delete (file_path file) (operations t1)\<rparr>)"

section \<open>Path depth and the Batch Scheduler\<close>

text \<open>\<^verbatim>\<open>path.split("/")\<close>; the depth of a path is the number of its segments.\<close>

fun split_slash :: "string \<Rightarrow> string list" where
  "split_slash [] = [[]]"
| "split_slash (c # cs) =
     (if c = CHR ''/'' then [] # split_slash cs
      else (case split_slash cs of [] \<Rightarrow> [[c]] | s # ss \<Rightarrow> (c # s) # ss))"

definition depth :: "path \<Rightarrow> nat" where
  "depth p = length (split_slash p)"

definition maxDepth :: "path list \<Rightarrow> nat" where
  "maxDepth ps = fold max (map depth ps) 0"

text \<open>
  Modelled from the spec: \<^verbatim>\<open>foldersToBatches\<close> of helpers/drive is not among the sources.
  Section 4.2: an ordered sequence of batches where batch k contains all paths at
  hierarchy depth k (depth = number of path segments).
\<close>

definition foldersToBatches :: "path list \<Rightarrow> path list list" where
  "foldersToBatches folders =
     map (\<lambda>k. filter (\<lambda>p. depth p = k) folders) [1 ..< Suc (maxDepth folders)]"

section \<open>Pull (helpers/pull.ts)\<close>

datatype outcome = Returned | Noticed string | Thrown string

text \<open>\<^verbatim>\<open>Object.fromEntries\<close>, and the inverse of the Remote-ID Index.\<close>

definition fromEntries :: "(string \<times> 'v) list \<Rightarrow> (string \<times> 'v) list" where
  "fromEntries es = fold (\<lambda>(k, v). AList.update k v) es []"

definition invert :: "(string \<times> string) list \<Rightarrow> (string \<times> string) list" where
  "invert obj = fromEntries (map (\<lambda>(a, b). (b, a)) obj)"

text \<open>A string-valued entry read as a condition: absent and the empty string are falsy.\<close>

definition truthy :: "(string \<times> string) list \<Rightarrow> string \<Rightarrow> bool" where
  "truthy obj k = (case map_of obj k of None \<Rightarrow> False | Some v \<Rightarrow> v \<noteq> [])"

subsection \<open>Resolving the removals of the change feed (lines 65-79)\<close>

definition resolveRemoval :: "host \<Rightarrow> drive_id \<Rightarrow> plugin \<Rightarrow> abstract_file option \<times> plugin" where
  "resolveRemoval h fid t =
     (case map_of (driveIdToPath t) fid of
        None \<Rightarrow> (None, t)
      | Some p \<Rightarrow>
          if p = [] then (None, t)
          else
            (let t1 = t\<lparr>driveIdToPath := AList.delete fid (driveIdToPath t)\<rparr>;
                 file = getAbstractFileByPath (store h t1) p
             in if file = None \<and> map_of (operations t1) p = Some Delete
                then (None, t1\<lparr>operations := AList.delete p (operations t1)\<rparr>)
                else (file, t1)))"

fun resolveRemovals :: "host \<Rightarrow> drive_id list \<Rightarrow> plugin \<Rightarrow> abstract_file option list \<times> plugin" where
  "resolveRemovals h [] t = ([], t)"
| "resolveRemovals h (fid # fids) t =
     (let (file, t1) = resolveRemoval h fid t;
          (files, t2) = resolveRemovals h fids t1
      in (file # files, t2))"

definition removedIds :: "change list \<Rightarrow> drive_id list" where
  "removedIds changes = map fileId (filter removed changes)"

subsection \<open>updateMap (lines 91-101)\<close>

definition updateMap :: "file_metadata list \<Rightarrow> (path \<times> drive_id) list \<Rightarrow> (path \<times> drive_id) list" where
  "updateMap allRecentFiles pathToId =
     fold (\<lambda>m acc. case md_path m of
                      None \<Rightarrow> acc
                    | Some p \<Rightarrow> if p = [] then acc else AList.update p (md_id m) acc)
          allRecentFiles pathToId"

subsection \<open>deleteFiles (lines 105-138)\<close>

fun selectDeletedFiles ::
  "(path \<times> drive_id) list \<Rightarrow> abstract_file option list \<Rightarrow> oplog \<Rightarrow> abstract_file list \<times> oplog" where
  "selectDeletedFiles pathToId [] ops = ([], ops)"
| "selectDeletedFiles pathToId (Some (TFile p m) # rest) ops =
     (if map_of ops p = Some Modify then
        selectDeletedFiles pathToId rest
          (if \<not> truthy pathToId p then AList.update p Create ops else ops)
      else (let (fs, ops1) = selectDeletedFiles pathToId rest ops in (TFile p m # fs, ops1)))"
| "selectDeletedFiles pathToId (_ # rest) ops = selectDeletedFiles pathToId rest ops"

fun selectDeletedFolders ::
  "(path \<times> drive_id) list \<Rightarrow> path option list \<Rightarrow> abstract_file option list \<Rightarrow> oplog
     \<Rightarrow> abstract_file list \<times> oplog" where
  "selectDeletedFolders pathToId deletionPaths [] ops = ([], ops)"
| "selectDeletedFolders pathToId deletionPaths (Some (TFolder p cs) # rest) ops =
     (if truthy pathToId p then selectDeletedFolders pathToId deletionPaths rest ops
      else if list_ex (\<lambda>c. Some c \<notin> set deletionPaths) cs then
        (let (fs, ops1) = selectDeletedFolders pathToId deletionPaths rest ops
         in (TFolder p cs # fs, ops1))
      else selectDeletedFolders pathToId deletionPaths rest (AList.update p Create ops))"
| "selectDeletedFolders pathToId deletionPaths (_ # rest) ops =
     selectDeletedFolders pathToId deletionPaths rest ops"

text \<open>
  A folder covers itself and everything below it:
  \<^verbatim>\<open>path.startsWith(folder.path + "/") || path === folder.path\<close>.
\<close>

definition covers :: "path \<Rightarrow> path \<Rightarrow> bool" where
  "covers folder p = (startsWith p (folder @ ''/'') \<or> p = folder)"

definition dropCovered :: "('a \<Rightarrow> path) \<Rightarrow> 'a list \<Rightarrow> 'a list \<Rightarrow> 'a list" where
  "dropCovered path_of foldersToDelete remaining =
     fold (\<lambda>folder rem. filter (\<lambda>x. \<not> covers (path_of folder) (path_of x)) rem)
          foldersToDelete remaining"

text \<open>
  Modelled from the spec: \<^verbatim>\<open>deleteFilesMinimumOperations\<close> of helpers/drive is not among
  the sources. Section 4.4 step 6: directories are removed top-most-first and any
  descendant already covered by a removed ancestor is skipped; each removal goes through
  \<^verbatim>\<open>deleteFile\<close> of the plugin.
\<close>

definition minimumStep :: "host \<Rightarrow> nat \<Rightarrow> abstract_file list \<times> plugin \<Rightarrow> abstract_file list \<times> plugin" where
  "minimumStep h k st =
     (let foldersToDelete = filter (\<lambda>f. is_TFolder f \<and> depth (file_path f) = k) (fst st)
      in (dropCovered file_path foldersToDelete (fst st), fold (deleteFile h) foldersToDelete (snd st)))"

definition deleteFilesMinimumOperations :: "host \<Rightarrow> abstract_file list \<Rightarrow> plugin \<Rightarrow> plugin" where
  "deleteFilesMinimumOperations h files t =
     (let folders = filter is_TFolder files;
          st = fold (minimumStep h) [1 ..< Suc (maxDepth (map file_path folders))] (files, t)
      in fold (deleteFile h) (fst st) (snd st))"

definition deleteFiles ::
  "host \<Rightarrow> (path \<times> drive_id) list \<Rightarrow> abstract_file option list \<Rightarrow> plugin \<Rightarrow> plugin" where
  "deleteFiles h pathToId deletions t =
     (let (deletedFiles, ops1) = selectDeletedFiles pathToId deletions (operations t);
          deletionPaths = map (map_option file_path) deletions;
          (deletedFolders, ops2) = selectDeletedFolders pathToId deletionPaths deletions ops1
      in deleteFilesMinimumOperations h (deletedFolders @ deletedFiles) (t\<lparr>operations := ops2\<rparr>))"

subsection \<open>upsertFiles (lines 144-214)\<close>

definition upsertFolder :: "host \<Rightarrow> path \<Rightarrow> plugin \<Rightarrow> plugin" where
  "upsertFolder h folder t =
     (let t1 = t\<lparr>operations := AList.delete folder (operations t)\<rparr>
      in if getFolderByPath (store h t1) folder \<noteq> None \<or> adapter_exists (store h t1) folder
         then t1
         else createFolder h folder t1)"

text \<open>
  One task of the list handed to \<^verbatim>\<open>batchAsyncs\<close>. The progress counter and the progress
  messages of the sync notice are not part of the model.
\<close>

definition upsertNote :: "host \<Rightarrow> file_metadata \<Rightarrow> plugin \<Rightarrow> plugin" where
  "upsertNote h file t =
     (case md_path file of
        None \<Rightarrow> t
      | Some p \<Rightarrow>
          if p = [] then t
          else
            (let vaultFile = getFileByPath (store h t) p;
                 localFile = (vaultFile \<noteq> None \<or> adapter_exists (store h t) p);
                 operation = map_of (operations t) p
             in if localFile \<and> operation = Some Modify then t
                else if localFile \<and> operation = Some Create
                then t\<lparr>operations := AList.update p Modify (operations t)\<rparr>
                else
                  (let content = getFile (remote h t) (md_id file);
                       t1 = emit (DriveGetFile (md_id file)) t
                   in case vaultFile of
                        Some f \<Rightarrow> modifyFile h f content (Some (md_modifiedTime file)) t1
                      | None \<Rightarrow> upsertFile h p content (Some (md_modifiedTime file)) t1)))"

text \<open>
  Modelled from the spec: \<^verbatim>\<open>batchAsyncs\<close> of helpers/drive is not among the sources.
  Section 4.2: the tasks run through a bounded-concurrency executor without depth
  ordering; here they run one after the other in the order of the list.
\<close>

definition batchAsyncs :: "('a \<Rightarrow> plugin \<Rightarrow> plugin) \<Rightarrow> 'a list \<Rightarrow> plugin \<Rightarrow> plugin" where
  "batchAsyncs task xs t = fold task xs t"

definition truthyPaths :: "file_metadata list \<Rightarrow> path list" where
  "truthyPaths ms = filter (\<lambda>p. p \<noteq> []) (List.map_filter md_path ms)"

definition upsertFiles :: "host \<Rightarrow> file_metadata list \<Rightarrow> plugin \<Rightarrow> plugin" where
  "upsertFiles h allRecentFiles t =
     (let newFolders = filter md_is_folder allRecentFiles;
          t1 = (if newFolders \<noteq> []
                then fold (\<lambda>batch. fold (upsertFolder h) batch)
                       (foldersToBatches (truthyPaths newFolders)) t
                else t);
          newNotes = filter (\<lambda>m. \<not> md_is_folder m) allRecentFiles
      in batchAsyncs (upsertNote h) newNotes t1)"

subsection \<open>deleteConfigs (lines 218-301)\<close>

record config_deletion =
  cd_path :: path
  cd_type :: file_type

definition configDeletion :: "host \<Rightarrow> plugin \<Rightarrow> drive_id \<Rightarrow> config_deletion option" where
  "configDeletion h t fid =
     (case map_of (driveIdToPath t) fid of
        None \<Rightarrow> None
      | Some p \<Rightarrow>
          if p = [] \<or> getAbstractFileByPath (store h t) p \<noteq> None then None
          else (case adapter_stat (store h t) p of
                  None \<Rightarrow> None
                | Some ty \<Rightarrow> Some \<lparr>cd_path = p, cd_type = ty\<rparr>))"

definition is_folder_entry :: "config_deletion \<Rightarrow> bool" where
  "is_folder_entry e = (cd_type e = Folder_type)"

definition trashStep ::
  "host \<Rightarrow> (path \<Rightarrow> action) \<Rightarrow> nat \<Rightarrow> config_deletion list \<times> plugin \<Rightarrow> config_deletion list \<times> plugin" where
  "trashStep h deletionMethod k st =
     (let foldersToDelete = filter (\<lambda>e. is_folder_entry e \<and> depth (cd_path e) = k) (fst st)
      in (dropCovered cd_path foldersToDelete (fst st),
          fold (\<lambda>e. local_call h (deletionMethod (cd_path e))) foldersToDelete (snd st)))"

definition trashConfigs ::
  "host \<Rightarrow> (path \<Rightarrow> action) \<Rightarrow> config_deletion list \<Rightarrow> plugin \<Rightarrow> plugin" where
  "trashConfigs h deletionMethod configDeletionsFiltered t =
     (let folders = filter is_folder_entry configDeletionsFiltered;
          st = (if folders \<noteq> []
                then fold (trashStep h deletionMethod) [1 ..< Suc (maxDepth (map cd_path folders))]
                       (configDeletionsFiltered, t)
                else (configDeletionsFiltered, t))
      in fold (\<lambda>e. local_call h (deletionMethod (cd_path e))) (fst st) (snd st))"

definition rmdirIfEmpty :: "host \<Rightarrow> path \<Rightarrow> plugin \<Rightarrow> plugin" where
  "rmdirIfEmpty h folder t =
     (if adapter_list_size (store h t) folder \<noteq> 0 then t
      else local_call h (AdapterRmdir folder) t)"

definition removeConfigs :: "host \<Rightarrow> config_deletion list \<Rightarrow> plugin \<Rightarrow> plugin" where
  "removeConfigs h configDeletionsFiltered t =
     (let deletedFiles = filter (\<lambda>e. cd_type e = File_type) configDeletionsFiltered;
          t1 = fold (\<lambda>e. local_call h (AdapterRemove (cd_path e))) deletedFiles t;
          deletedFolders = filter is_folder_entry configDeletionsFiltered;
          batches = rev (foldersToBatches (map cd_path deletedFolders))
      in fold (\<lambda>batch. fold (rmdirIfEmpty h) batch) batches t1)"

definition deleteConfigs :: "host \<Rightarrow> drive_id list \<Rightarrow> plugin \<Rightarrow> plugin" where
  "deleteConfigs h removedFileIds t =
     (let configDeletionsFiltered = List.map_filter (configDeletion h t) removedFileIds;
          trashMethod = trashOption (store h t)
      in case trashMethod of
           Trash_local \<Rightarrow> trashConfigs h AdapterTrashLocal configDeletionsFiltered t
         | Trash_system \<Rightarrow> trashConfigs h AdapterTrashSystem configDeletionsFiltered t
         | Trash_none \<Rightarrow> removeConfigs h configDeletionsFiltered t)"

subsection \<open>startSync and endSync of the plugin (main.ts), and pull\<close>

text \<open>
  The refresh of the access token (helpers/ky) at the start of pull and the console
  output are not part of the model. \<open>pullBody\<close> is pull from the first search on.
\<close>

definition startSync :: "host \<Rightarrow> plugin \<Rightarrow> string + plugin" where
  "startSync h t =
     (if \<not> checkConnection (remote h t)
      then Inl (''You are not connected to the internet, so you cannot sync right now. ''
                @ ''Please try syncing once you have connection again.'')
      else Inr (emit (ShowNotice ''Syncing (0%)'') (t\<lparr>syncing := True\<rparr>)))"

definition endSync :: "host \<Rightarrow> bool \<Rightarrow> plugin \<Rightarrow> plugin" where
  "endSync h retainConfigChanges t =
     (let t1 =
        (if retainConfigChanges then
           (let configFilesToSync = getConfigFilesToSync (remote h t);
                t0 = t\<lparr>lastSyncedAt := clock h (trace t)\<rparr>
            in fold (\<lambda>file u. local_call h
                       (AdapterWriteBinary file (readBinary (store h u) file) (Some (clock h (trace u)))) u)
                    configFilesToSync t0)
         else t\<lparr>lastSyncedAt := clock h (trace t)\<rparr>)
      in case getChangesStartToken (remote h t1) of
           None \<Rightarrow> emit (ShowNotice ''An error occurred fetching Google Drive changes token.'') t1
         | Some token \<Rightarrow> t1\<lparr>changesToken := token, syncing := False\<rparr>)"

definition pullBody :: "host \<Rightarrow> bool \<Rightarrow> plugin \<Rightarrow> outcome \<times> plugin" where
  "pullBody h silenceNotices t =
     (case searchModifiedAfter (remote h t) (lastSyncedAt t) of
        None \<Rightarrow>
          (Noticed ''An error occurred fetching Google Drive files. Check console for details.'',
           emit (ShowNotice ''An error occurred fetching Google Drive files. Check console for details.'') t)
      | Some recentlyModified \<Rightarrow>
          (let hiddenFiles = searchHiddenFiles (remote h t);
               recentHiddenFiles = filter (\<lambda>m. md_modifiedTime m > lastSyncedAt t) hiddenFiles;
               allRecentFiles = recentlyModified @ recentHiddenFiles
           in case getChanges (remote h t) (changesToken t) of
                None \<Rightarrow>
                  (Noticed ''An error occurred fetching Google Drive changes.'',
                   emit (ShowNotice ''An error occurred fetching Google Drive changes.'') t)
              | Some changes \<Rightarrow>
                  (let (deletions, t1) = resolveRemovals h (removedIds changes) t
                   in if allRecentFiles = [] \<and> deletions = [] then
                        (if silenceNotices then (Returned, t1)
                         else (Noticed ''You're up to date!'',
                               emit (ShowNotice ''You're up to date!'') (endSync h True t1)))
                      else
                        (let pathToId = updateMap allRecentFiles (invert (driveIdToPath t1));
                             t2 = t1\<lparr>driveIdToPath := invert pathToId\<rparr>;
                             t3 = deleteFiles h pathToId deletions t2;
                             t4 = upsertFiles h allRecentFiles t3;
                             t5 = deleteConfigs h (removedIds changes) t4
                         in if silenceNotices then (Returned, t5)
                            else (Returned,
                                  emit (ShowNotice ''Files have been synced from Google Drive!'')
                                    (endSync h True t5))))))"

definition pull :: "host \<Rightarrow> bool \<Rightarrow> plugin \<Rightarrow> outcome \<times> plugin" where
  "pull h silenceNotices t =
     (if \<not> silenceNotices then
        (if syncing t then (Returned, t)
         else (case startSync h t of
                 Inl msg \<Rightarrow> (Thrown msg, emit (ShowNotice msg) t)
               | Inr t1 \<Rightarrow> pullBody h silenceNotices t1))
      else pullBody h silenceNotices t)"

section \<open>Push (helpers/push.ts)\<close>

text \<open>\<^verbatim>\<open>getAllVaultFiles\<close>: a folder whose listing fails contributes nothing.\<close>

fun collectFiles :: "listing \<Rightarrow> path list" where
  "collectFiles ListFailed = []"
| "collectFiles (Listing files folders) =
     files @ concat (map (\<lambda>(folder, sub). folder # collectFiles sub) folders)"

definition getAllVaultFiles :: "local_store \<Rightarrow> path list" where
  "getAllVaultFiles s = collectFiles (adapter_tree s)"

definition fileName :: "path \<Rightarrow> string" where
  "fileName p = last (split_slash p)"

definition isHiddenName :: "path \<Rightarrow> bool" where
  "isHiddenName p = startsWith (fileName p) ''.''"

text \<open>The body of \<^verbatim>\<open>hiddenLocalFiles.forEach\<close> (lines 326-353).\<close>

definition trackHidden :: "local_store \<Rightarrow> file_metadata list \<Rightarrow> path \<Rightarrow> oplog \<Rightarrow> oplog" where
  "trackHidden s hiddenFiles p ops =
     (if map_of ops p \<noteq> None then ops
      else
        (case getAbstractFileByPath s p of
           None \<Rightarrow> ops
         | Some file \<Rightarrow>
             if \<not> list_ex (\<lambda>driveFile. md_path driveFile = Some p) hiddenFiles
             then AList.update p Create ops
             else
               (case (find (\<lambda>df. md_path df = Some p) hiddenFiles, file) of
                  (Some driveFile, TFile _ localMtime) \<Rightarrow>
                    if localMtime > md_modifiedTime driveFile then AList.update p Modify ops else ops
                | _ \<Rightarrow> ops)))"

definition hiddenLocalFiles :: "local_store \<Rightarrow> path list" where
  "hiddenLocalFiles s = filter (\<lambda>p. isHiddenName p \<and> shouldSyncFile p) (getAllVaultFiles s)"

text \<open>
  The plugin when the confirmation is asked (lines 296-365): the remote root is ensured and
  the untracked hidden local files are added to the log.
\<close>

definition pushPrepared :: "host \<Rightarrow> plugin \<Rightarrow> plugin" where
  "pushPrepared h t =
     (let t0 = emit DriveGetRootFolderId t;
          hiddenFiles = searchHiddenFiles (remote h t0)
      in t0\<lparr>operations :=
              fold (trackHidden (store h t0) hiddenFiles) (hiddenLocalFiles (store h t0)) (operations t0)\<rparr>)"

definition initialOperations :: "plugin \<Rightarrow> (path \<times> operation) list" where
  "initialOperations t = sort_key fst (operations t)"

definition deletes_of :: "oplog \<Rightarrow> (path \<times> operation) list" where
  "deletes_of ops = filter (\<lambda>(_, op). op = Delete) ops"

definition creates_of :: "oplog \<Rightarrow> (path \<times> operation) list" where
  "creates_of ops = filter (\<lambda>(_, op). op = Create) ops"

definition modifies_of :: "oplog \<Rightarrow> (path \<times> operation) list" where
  "modifies_of ops = filter (\<lambda>(_, op). op = Modify) ops"

text \<open>
  The delete set (lines 379 and 395-401): the \<open>delete\<close> entries of the log, then every
  config object of the remote store with no local counterpart.
\<close>

definition deleteSet :: "host \<Rightarrow> plugin \<Rightarrow> path list \<Rightarrow> (path \<times> operation) list" where
  "deleteSet h t configOnDrive =
     deletes_of (operations t)
       @ map (\<lambda>p. (p, Delete)) (filter (\<lambda>p. \<not> adapter_exists (store h t) p) configOnDrive)"

definition deleteErrorNotice :: string where
  "deleteErrorNotice = ''An error occurred deleting Google Drive files.''"

text \<open>The delete phase (lines 403-411); \<open>False\<close> when push returns from it with the error.\<close>

definition pushDeletes ::
  "host \<Rightarrow> (path \<times> operation) list \<Rightarrow> (path \<times> drive_id) list \<Rightarrow> plugin \<Rightarrow> bool \<times> plugin" where
  "pushDeletes h deletes pathsToIds t =
     (if deletes = [] then (True, t)
      else
        (let ids = map (\<lambda>(p, _). map_of pathsToIds p) deletes;
             t1 = emit (DriveBatchDelete ids) t
         in if \<not> batchDelete (remote h t) ids
            then (False, emit (ShowNotice deleteErrorNotice) t1)
            else (True, t1\<lparr>driveIdToPath :=
                               fold (\<lambda>(p, _). AList.delete p) deletes (driveIdToPath t1)\<rparr>)))"

text \<open>
  The parent of a vault entry is the folder of all but its last segment, the root
  \<^verbatim>\<open>/\<close> for a top-level entry.
\<close>

fun join_slash :: "string list \<Rightarrow> string" where
  "join_slash [] = []"
| "join_slash [s] = s"
| "join_slash (s # ss) = s @ ''/'' @ join_slash ss"

definition parentPath :: "path \<Rightarrow> path" where
  "parentPath p = (if length (split_slash p) \<le> 1 then ''/'' else join_slash (butlast (split_slash p)))"

text \<open>The create phase (lines 415-484). A failed call shows its notice and ends its own task only.\<close>

definition pushCreateFolder ::
  "host \<Rightarrow> path \<Rightarrow> (path \<times> drive_id) list \<times> plugin \<Rightarrow> (path \<times> drive_id) list \<times> plugin" where
  "pushCreateFolder h folder st =
     (let t1 = emit (DriveCreateFolder folder (map_of (fst st) (parentPath folder))) (snd st)
      in case createFolderId (remote h (snd st)) folder of
           None \<Rightarrow> (fst st, emit (ShowNotice ''An error occurred creating Google Drive folders.'') t1)
         | Some i \<Rightarrow>
             (AList.update folder i (fst st),
              t1\<lparr>driveIdToPath := AList.update i folder (driveIdToPath t1)\<rparr>))"

definition pushCreateNote :: "host \<Rightarrow> (path \<times> drive_id) list \<Rightarrow> path \<Rightarrow> plugin \<Rightarrow> plugin" where
  "pushCreateNote h pathsToIds note t =
     (let t1 = emit (DriveUploadFile note (map_of pathsToIds (parentPath note))
                       (readBinary (store h t) note)) t
      in case uploadFileId (remote h t) note of
           None \<Rightarrow> emit (ShowNotice ''An error occurred creating Google Drive files.'') t1
         | Some i \<Rightarrow> t1\<lparr>driveIdToPath := AList.update i note (driveIdToPath t1)\<rparr>)"

definition pushCreates ::
  "host \<Rightarrow> (path \<times> operation) list \<Rightarrow> (path \<times> drive_id) list \<times> plugin
     \<Rightarrow> (path \<times> drive_id) list \<times> plugin" where
  "pushCreates h creates st =
     (if creates = [] then st
      else
        (let files = map (\<lambda>(p, _). getAbstractFileByPath (store h (snd st)) p) creates;
             folders = map file_path (filter is_TFolder (List.map_filter id files));
             st1 = (if folders \<noteq> []
                    then fold (\<lambda>batch. fold (pushCreateFolder h) batch) (foldersToBatches folders) st
                    else st);
             notes = map file_path (filter is_TFile (List.map_filter id files))
         in (fst st1, batchAsyncs (pushCreateNote h (fst st1)) notes (snd st1))))"

text \<open>The modify phase (lines 486-519).\<close>

definition pushModifyNote :: "host \<Rightarrow> (path \<times> drive_id) list \<Rightarrow> path \<Rightarrow> plugin \<Rightarrow> plugin" where
  "pushModifyNote h pathToId note t =
     (let t1 = emit (DriveUpdateFile (map_of pathToId note) (readBinary (store h t) note)) t
      in if updateFileOk (remote h t) (map_of pathToId note) then t1
         else emit (ShowNotice ''An error occurred modifying Google Drive files.'') t1)"

definition pushModifies :: "host \<Rightarrow> (path \<times> operation) list \<Rightarrow> plugin \<Rightarrow> plugin" where
  "pushModifies h modifies t =
     (if modifies = [] then t
      else
        (let files = List.map_filter (\<lambda>(p, _). getFileByPath (store h t) p) modifies;
             pathToId = invert (driveIdToPath t)
         in batchAsyncs (pushModifyNote h pathToId) (map file_path files) t))"

text \<open>The config objects (lines 521-597).\<close>

definition ancestorFolders :: "path \<Rightarrow> path list" where
  "ancestorFolders p =
     map (\<lambda>i. join_slash (take i (split_slash p))) [1 ..< length (split_slash p)]"

definition addAll :: "string list \<Rightarrow> string list \<Rightarrow> string list" where
  "addAll xs acc = fold (\<lambda>x a. if x \<in> set a then a else a @ [x]) xs acc"

definition pushConfigFolder ::
  "host \<Rightarrow> path \<Rightarrow> (path \<times> drive_id) list \<times> plugin \<Rightarrow> (path \<times> drive_id) list \<times> plugin" where
  "pushConfigFolder h folder st =
     (let t1 = emit (DriveCreateFolder folder
                       (map_of (fst st) (join_slash (butlast (split_slash folder))))) (snd st)
      in case createFolderId (remote h (snd st)) folder of
           None \<Rightarrow> (fst st, emit (ShowNotice ''An error occurred creating Google Drive folders.'') t1)
         | Some i \<Rightarrow>
             (AList.update folder i (fst st),
              t1\<lparr>driveIdToPath := AList.update i folder (driveIdToPath t1)\<rparr>))"

definition pushConfigFile ::
  "host \<Rightarrow> path \<Rightarrow> (path \<times> drive_id) list \<times> plugin \<Rightarrow> (path \<times> drive_id) list \<times> plugin" where
  "pushConfigFile h p st =
     (if truthy (fst st) p
      then (fst st, emit (DriveUpdateFile (map_of (fst st) p) (readBinary (store h (snd st)) p)) (snd st))
      else
        (let t1 = emit (DriveUploadFile p (map_of (fst st) (join_slash (butlast (split_slash p))))
                          (readBinary (store h (snd st)) p)) (snd st)
         in case uploadFileId (remote h (snd st)) p of
              None \<Rightarrow> (fst st, emit (ShowNotice ''An error occurred creating Google Drive config files.'') t1)
            | Some i \<Rightarrow>
                (AList.update p i (fst st),
                 t1\<lparr>driveIdToPath := AList.update i p (driveIdToPath t1)\<rparr>)))"

definition pushConfigs ::
  "host \<Rightarrow> (path \<times> drive_id) list \<times> plugin \<Rightarrow> (path \<times> drive_id) list \<times> plugin" where
  "pushConfigs h st =
     (let configFilesToSync = getConfigFilesToSync (remote h (snd st));
          foldersToCreate = filter (\<lambda>folder. \<not> truthy (fst st) folder)
                              (fold (\<lambda>p. addAll (ancestorFolders p)) configFilesToSync []);
          st1 = (if foldersToCreate \<noteq> []
                 then fold (\<lambda>batch. fold (pushConfigFolder h) batch) (foldersToBatches foldersToCreate) st
                 else st)
      in fold (pushConfigFile h) configFilesToSync st1)"

definition pushFinish :: "host \<Rightarrow> (path \<times> drive_id) list \<Rightarrow> plugin \<Rightarrow> plugin" where
  "pushFinish h pathsToIds t =
     (let t1 = emit (DriveUpdateSettings
                       (map_of pathsToIds (configDir (store h t) @ ''/plugins/google-drive-sync/data.json''))
                       (operations t) (driveIdToPath t)) t;
          t2 = endSync h False (t1\<lparr>operations := []\<rparr>)
      in emit (ShowNotice ''Sync complete!'') t2)"

text \<open>Push from the partition of the log on (lines 377-603), after the silent pull.\<close>

definition pushConfirmed :: "host \<Rightarrow> plugin \<Rightarrow> outcome \<times> plugin" where
  "pushConfirmed h t =
     (let creates = creates_of (operations t);
          modifies = modifies_of (operations t);
          pathsToIds = invert (driveIdToPath t)
      in case searchConfig (remote h t) of
           None \<Rightarrow>
             (Noticed ''An error occurred fetching Google Drive files.'',
              emit (ShowNotice ''An error occurred fetching Google Drive files.'') t)
         | Some configOnDrive \<Rightarrow>
             (case pushDeletes h (deleteSet h t configOnDrive) pathsToIds t of
                (False, t1) \<Rightarrow> (Noticed deleteErrorNotice, t1)
              | (True, t1) \<Rightarrow>
                  (let st2 = pushCreates h creates (pathsToIds, t1);
                       t3 = pushModifies h modifies (snd st2);
                       st4 = pushConfigs h (fst st2, t3)
                   in (Returned, pushFinish h (fst st4) (snd st4)))))"

text \<open>
  Push. The confirmation dialog is the host's answer to the sorted log; the undo buttons of
  the dialog are not part of the model.
\<close>

definition push :: "host \<Rightarrow> plugin \<Rightarrow> outcome \<times> plugin" where
  "push h t =
     (if syncing t then (Returned, t)
      else
        (let t1 = pushPrepared h t
         in if \<not> confirmPush h (initialOperations t1) then (Returned, t1)
            else (case startSync h t1 of
                    Inl msg \<Rightarrow> (Thrown msg, emit (ShowNotice msg) t1)
                  | Inr t2 \<Rightarrow> pushConfirmed h (snd (pull h True t2)))))"

section \<open>Auxiliary notions for the properties\<close>

text \<open>The condition \<^verbatim>\<open>localFile\<close> of an upsert task (lines 181-183).\<close>

definition localFile_present :: "host \<Rightarrow> plugin \<Rightarrow> path \<Rightarrow> bool" where
  "localFile_present h t p = (getFileByPath (store h t) p \<noteq> None \<or> adapter_exists (store h t) p)"

text \<open>
  While the removals are resolved, the removal of \<open>fid0\<close>, which resolves to \<open>p\<close>, is either
  still ahead or already collapsed.
\<close>

definition pending_collapse :: "host \<Rightarrow> drive_id \<Rightarrow> path \<Rightarrow> plugin \<Rightarrow> bool" where
  "pending_collapse h fid0 p t =
     (getAbstractFileByPath (store h t) p = None
      \<and> (map_of (operations t) p = Some Delete \<or> map_of (operations t) p = None)
      \<and> (map_of (driveIdToPath t) fid0 = Some p
          \<or> map_of (driveIdToPath t) fid0 = None \<and> map_of (operations t) p = None))"

definition collapsed :: "drive_id \<Rightarrow> path \<Rightarrow> plugin \<Rightarrow> bool" where
  "collapsed fid0 p t = (map_of (driveIdToPath t) fid0 = None \<and> map_of (operations t) p = None)"

text \<open>The calls issued between two moments of a run, and the order of two calls in a list.\<close>

definition calls_since :: "plugin \<Rightarrow> plugin \<Rightarrow> action list" where
  "calls_since t t' = drop (length (trace t)) (trace t')"

fun issued_before :: "action \<Rightarrow> action \<Rightarrow> action list \<Rightarrow> bool" where
  "issued_before a b [] = False"
| "issued_before a b (c # cs) = (if c = a then b \<in> set cs else issued_before a b cs)"

definition deeper_first :: "action \<Rightarrow> action \<Rightarrow> bool" where
  "deeper_first a b =
     (case (a, b) of (AdapterRmdir x, AdapterRmdir y) \<Rightarrow> depth y \<le> depth x | _ \<Rightarrow> True)"

text \<open>
  The loop of the trash policies, after the depths below \<open>j\<close>: what is left is a part of the
  removals, nothing left lies under a removal that is gone, no call names \<open>d\<close>, and the
  folder \<open>ea\<close> is gone once its depth is passed.
\<close>

definition trash_inv ::
  "config_deletion list \<Rightarrow> config_deletion \<Rightarrow> path \<Rightarrow> plugin \<Rightarrow> (path \<Rightarrow> action) \<Rightarrow> nat
     \<Rightarrow> config_deletion list \<times> plugin \<Rightarrow> bool" where
  "trash_inv orig ea d t0 m j st =
     (set (fst st) \<subseteq> set orig
      \<and> (\<forall>x \<in> set orig. x \<notin> set (fst st) \<longrightarrow> (\<forall>y \<in> set (fst st). \<not> covers (cd_path x) (cd_path y)))
      \<and> (\<exists>ps. trace (snd st) = trace t0 @ map m ps \<and> d \<notin> set ps)
      \<and> (depth (cd_path ea) < j \<longrightarrow> ea \<notin> set (fst st)))"

text \<open>
  Permanent removal: the calls since \<open>t0\<close> are ordered by non-increasing depth of the
  removed folders, all of depth \<open>k\<close> at least.
\<close>

definition rm_inv :: "plugin \<Rightarrow> nat \<Rightarrow> plugin \<Rightarrow> bool" where
  "rm_inv t0 k t =
     (\<exists>cs. trace t = trace t0 @ cs \<and> sorted_wrt deeper_first cs
        \<and> (\<forall>x. AdapterRmdir x \<in> set cs \<longrightarrow> k \<le> depth x))"

text \<open>The calls of the create, modify and config phases of push.\<close>

fun uploads :: "action \<Rightarrow> bool" where
  "uploads (DriveCreateFolder _ _) = True"
| "uploads (DriveUploadFile _ _ _) = True"
| "uploads (DriveUpdateFile _ _) = True"
| "uploads (DriveUpdateSettings _ _ _) = True"
| "uploads _ = False"

text \<open>
  From \<open>t\<close> to \<open>t'\<close> the Sync Checkpoint and the \<^verbatim>\<open>syncing\<close> flag are kept and no call of the
  create, modify or config phases is issued.
\<close>

definition keeps_checkpoint :: "plugin \<Rightarrow> plugin \<Rightarrow> bool" where
  "keeps_checkpoint t t' =
     (lastSyncedAt t' = lastSyncedAt t \<and> changesToken t' = changesToken t \<and> syncing t' = syncing t
      \<and> (\<exists>cs. trace t' = trace t @ cs \<and> filter uploads cs = []))"

section \<open>Fixtures for the concrete runs\<close>

definition idle_store :: local_store where
  "idle_store =
     \<lparr>getAbstractFileByPath = (\<lambda>_. None), adapter_tree = Listing [] [],
      adapter_exists = (\<lambda>_. False), adapter_stat = (\<lambda>_. None), adapter_list_size = (\<lambda>_. 0),
      readBinary = (\<lambda>_. []), trashOption = Trash_none, configDir = ''.obsidian''\<rparr>"

definition idle_remote :: remote_store where
  "idle_remote =
     \<lparr>searchModifiedAfter = (\<lambda>_. Some []), searchHiddenFiles = [], getChanges = (\<lambda>_. Some []),
      getFile = (\<lambda>_. []), searchConfig = Some [], batchDelete = (\<lambda>_. True),
      createFolderId = (\<lambda>_. None), uploadFileId = (\<lambda>_. None), updateFileOk = (\<lambda>_. True),
      getConfigFilesToSync = [], getChangesStartToken = Some ''token'', checkConnection = True\<rparr>"

definition idle_host :: host where
  "idle_host =
     \<lparr>store_after = (\<lambda>_. idle_store), remote_after = (\<lambda>_. idle_remote), fires = (\<lambda>_. []),
      clock = (\<lambda>_. 0), confirmPush = (\<lambda>_. True)\<rparr>"

definition fresh :: plugin where
  "fresh =
     \<lparr>operations = [], driveIdToPath = [], lastSyncedAt = 0, changesToken = [], syncing = False,
      trace = []\<rparr>"

definition present_host :: host where
  "present_host = idle_host\<lparr>store_after := (\<lambda>_. idle_store\<lparr>adapter_exists := (\<lambda>_. True)\<rparr>)\<rparr>"

definition folder_host :: "trash_option \<Rightarrow> host" where
  "folder_host policy =
     idle_host\<lparr>store_after :=
       (\<lambda>_. idle_store\<lparr>adapter_stat := (\<lambda>_. Some Folder_type), trashOption := policy\<rparr>)\<rparr>"

definition two_dirs :: plugin where
  "two_dirs = fresh\<lparr>driveIdToPath := [(''1'', ''a''), (''2'', ''a/b'')]\<rparr>"

definition failing_delete_host :: host where
  "failing_delete_host = idle_host\<lparr>remote_after := (\<lambda>_. idle_remote\<lparr>batchDelete := (\<lambda>_. False)\<rparr>)\<rparr>"

definition one_delete :: plugin where
  "one_delete = fresh\<lparr>operations := [(''a.md'', Delete)], driveIdToPath := [(''id1'', ''a.md'')]\<rparr>"


definition note_a :: file_metadata where
  "note_a = \<lparr>md_id = ''id1'', md_is_folder = False, md_path = Some ''a.md'', md_modifiedTime = 5\<rparr>"

section \<open>Properties\<close>

subsection \<open>The handlers against the transition table\<close>










lemma file_path_with_path [simp]: "file_path (with_path p f) = p"
  by (cases f) simp_all




text \<open>
  Where the table has no row, a create event on a path whose state is \<open>create\<close> or
  \<open>modify\<close>, the handler stores \<open>create\<close>.
\<close>

lemma handleCreate_outside_table:
  assumes "shouldSyncFile (file_path f)" "map_of ops (file_path f) \<noteq> Some Delete"
  shows "map_of (handleCreate f ops) (file_path f) = Some Create"
  using assms by (simp add: handleCreate_def update_conv')

subsection \<open>The local-apply helpers restore the log entry\<close>


text \<open>
  The restoring matters: when the vault fires the create event of the folder it makes, the
  bare vault call records \<open>create\<close> for the path and the helper leaves no entry.
\<close>

lemma createFolder_against_bare_call:
  "operations (local_call (idle_host\<lparr>fires := (\<lambda>_. [Created (TFolder ''notes'' [])])\<rparr>)
                 (VaultCreateFolder ''notes'') fresh) = [(''notes'', Create)]
   \<and> operations (createFolder (idle_host\<lparr>fires := (\<lambda>_. [Created (TFolder ''notes'' [])])\<rparr>)
                 ''notes'' fresh) = []"
  by (simp add: createFolder_def local_call_def restoreOperation_def replay_def handleCreate_def
      shouldSyncFile_def excludePatterns_def endsWith_def startsWith_def idle_host_def fresh_def)


subsection \<open>Pull: the removals of the change feed\<close>

lemma resolveRemoval_trace: "trace (snd (resolveRemoval h fid t)) = trace t"
  by (simp add: resolveRemoval_def Let_def split: option.splits)

lemma resolveRemoval_store: "store h (snd (resolveRemoval h fid t)) = store h t"
  by (simp add: store_def resolveRemoval_trace)

lemma resolveRemoval_pending:
  "pending_collapse h fid0 p t \<Longrightarrow> pending_collapse h fid0 p (snd (resolveRemoval h fid t))"
  by (auto simp: pending_collapse_def resolveRemoval_def Let_def store_def delete_conv'
      split: option.splits)

lemma resolveRemoval_collapsed:
  "collapsed fid0 p t \<Longrightarrow> collapsed fid0 p (snd (resolveRemoval h fid t))"
  by (auto simp: collapsed_def resolveRemoval_def Let_def delete_conv' split: option.splits)

lemma resolveRemoval_hit:
  assumes "pending_collapse h fid0 p t" "p \<noteq> []"
  shows "fst (resolveRemoval h fid0 t) = None \<and> collapsed fid0 p (snd (resolveRemoval h fid0 t))"
  using assms
  by (auto simp: pending_collapse_def collapsed_def resolveRemoval_def Let_def store_def
      delete_conv' split: option.splits)

lemma resolveRemovals_snd:
  "snd (resolveRemovals h (fid # fids) t) = snd (resolveRemovals h fids (snd (resolveRemoval h fid t)))"
  by (simp add: case_prod_beta Let_def)

lemma resolveRemovals_fst:
  "fst (resolveRemovals h (fid # fids) t) =
     fst (resolveRemoval h fid t) # fst (resolveRemovals h fids (snd (resolveRemoval h fid t)))"
  by (simp add: case_prod_beta Let_def)

lemma resolveRemovals_collapsed:
  "collapsed fid0 p t \<Longrightarrow> collapsed fid0 p (snd (resolveRemovals h fids t))"
proof (induction fids arbitrary: t)
  case Nil
  then show ?case by simp
next
  case (Cons fid fids)
  then show ?case
    unfolding resolveRemovals_snd by (intro Cons.IH resolveRemoval_collapsed)
qed

lemma resolveRemovals_trace: "trace (snd (resolveRemovals h fids t)) = trace t"
proof (induction fids arbitrary: t)
  case Nil
  then show ?case by simp
next
  case (Cons fid fids)
  then show ?case
    unfolding resolveRemovals_snd by (simp add: resolveRemoval_trace)
qed

lemma resolveRemovals_hit:
  assumes "pending_collapse h fid0 p t" "p \<noteq> []" "i < length fids" "fids ! i = fid0"
  shows "fst (resolveRemovals h fids t) ! i = None \<and> collapsed fid0 p (snd (resolveRemovals h fids t))"
  using assms
proof (induction fids arbitrary: t i)
  case Nil
  then show ?case by simp
next
  case (Cons fid fids)
  let ?t1 = "snd (resolveRemoval h fid t)"
  have pend: "pending_collapse h fid0 p ?t1"
    by (rule resolveRemoval_pending [OF Cons.prems(1)])
  show ?case
  proof (cases i)
    case 0
    with Cons.prems have "fid = fid0" by simp
    with resolveRemoval_hit [OF Cons.prems(1,2)]
    have "fst (resolveRemoval h fid t) = None" "collapsed fid0 p ?t1" by simp_all
    with resolveRemovals_collapsed [of fid0 p ?t1 h fids] 0 show ?thesis
      unfolding resolveRemovals_snd resolveRemovals_fst by simp
  next
    case (Suc j)
    with Cons.prems have "j < length fids" "fids ! j = fid0" by simp_all
    from Cons.IH [OF pend Cons.prems(2) this] Suc show ?thesis
      unfolding resolveRemovals_snd resolveRemovals_fst by simp
  qed
qed

text \<open>
  C8. A removal whose id resolves through the index to a path with no local entry and a
  pending \<open>delete\<close> produces no deletion (its place in \<^verbatim>\<open>deletions\<close> holds no file), the log
  entry of the path is cleared, the index entry of the id is dropped, and no call is issued.
\<close>

theorem redundant_delete_collapses:
  assumes "i < length fids"
    and "map_of (driveIdToPath t) (fids ! i) = Some p" and "p \<noteq> []"
    and "getAbstractFileByPath (store h t) p = None"
    and "map_of (operations t) p = Some Delete"
  shows "fst (resolveRemovals h fids t) ! i = None
       \<and> map_of (operations (snd (resolveRemovals h fids t))) p = None
       \<and> map_of (driveIdToPath (snd (resolveRemovals h fids t))) (fids ! i) = None
       \<and> trace (snd (resolveRemovals h fids t)) = trace t"
proof -
  have "pending_collapse h (fids ! i) p t"
    using assms by (simp add: pending_collapse_def)
  from resolveRemovals_hit [OF this assms(3) assms(1) refl]
  have "fst (resolveRemovals h fids t) ! i = None" "collapsed (fids ! i) p (snd (resolveRemovals h fids t))"
    by simp_all
  then show ?thesis by (simp add: collapsed_def resolveRemovals_trace)
qed

theorem redundant_delete_collapses_witness:
  "fst (resolveRemovals idle_host [''id1'', ''id2'']
         (fresh\<lparr>operations := [(''gone.md'', Delete)], driveIdToPath := [(''id2'', ''gone.md'')]\<rparr>)) ! 1 = None
   \<and> operations (snd (resolveRemovals idle_host [''id1'', ''id2'']
         (fresh\<lparr>operations := [(''gone.md'', Delete)], driveIdToPath := [(''id2'', ''gone.md'')]\<rparr>))) = []
   \<and> map_of (driveIdToPath (snd (resolveRemovals idle_host [''id1'', ''id2'']
         (fresh\<lparr>operations := [(''gone.md'', Delete)], driveIdToPath := [(''id2'', ''gone.md'')]\<rparr>)))) ''id2'' = None"
  using redundant_delete_collapses [of 1 "[''id1'', ''id2'']"
      "fresh\<lparr>operations := [(''gone.md'', Delete)], driveIdToPath := [(''id2'', ''gone.md'')]\<rparr>"
      "''gone.md''" idle_host]
  by (simp add: fresh_def idle_host_def idle_store_def store_def resolveRemoval_def)


subsection \<open>Pull: the deletion phase\<close>

text \<open>
  C2, on the code. The remote removed folder \<open>F\<close>, whose local child \<open>F/keep.md\<close> is not in
  the deletion set: the folder is handed to the local deletion and the log gets no entry.
  The remote removed folder \<open>G\<close> and its only child: the folder is kept out of the local
  deletion and marked \<open>create\<close>.
\<close>

theorem deleteFiles_folder_selection_inverted:
  "selectDeletedFolders [] [Some ''F''] [Some (TFolder ''F'' [''F/keep.md''])] []
     = ([TFolder ''F'' [''F/keep.md'']], [])
   \<and> trace (deleteFiles idle_host [] [Some (TFolder ''F'' [''F/keep.md''])] fresh) = [TrashFile ''F'']
   \<and> operations (deleteFiles idle_host [] [Some (TFolder ''F'' [''F/keep.md''])] fresh) = []
   \<and> selectDeletedFolders [] [Some ''G'', Some ''G/x.md'']
        [Some (TFolder ''G'' [''G/x.md'']), Some (TFile ''G/x.md'' 0)] []
     = ([], [(''G'', Create)])"
  by (simp add: truthy_def deleteFiles_def deleteFilesMinimumOperations_def maxDepth_def depth_def
      minimumStep_def dropCovered_def covers_def startsWith_def deleteFile_def local_call_def
      idle_host_def fresh_def replay_def)

subsection \<open>Pull: the upsert phase\<close>

text \<open>
  C3 as stated fails: a path in state \<open>modify\<close> with no local file is downloaded and written.
\<close>

theorem upsert_modify_without_local_file_downloads:
  "map_of (operations (fresh\<lparr>operations := [(''a.md'', Modify)]\<rparr>)) ''a.md'' = Some Modify
   \<and> trace (upsertNote idle_host note_a (fresh\<lparr>operations := [(''a.md'', Modify)]\<rparr>))
       = [DriveGetFile ''id1'', AdapterWriteBinary ''a.md'' [] (Some 5)]"
  by (simp add: upsertNote_def note_a_def idle_host_def idle_store_def idle_remote_def fresh_def
      store_def remote_def getFileByPath_def emit_def upsertFile_def local_call_def
      restoreOperation_def replay_def)

text \<open>
  C3, amended. For a remote-origin file whose path exists locally and has the state
  \<open>modify\<close>, the task changes nothing: no download, no local write, the entry stays
  \<open>modify\<close>, and the phase goes on as if the file were not in the list.
\<close>

theorem upsert_keeps_local_modify:
  assumes "md_path file = Some p" and "p \<noteq> []"
    and "localFile_present h t p"
    and "map_of (operations t) p = Some Modify"
  shows "upsertNote h file t = t
       \<and> batchAsyncs (upsertNote h) (file # rest) t = batchAsyncs (upsertNote h) rest t"
  using assms by (simp add: upsertNote_def localFile_present_def batchAsyncs_def Let_def)

theorem upsert_keeps_local_modify_witness:
  "localFile_present present_host (fresh\<lparr>operations := [(''a.md'', Modify)]\<rparr>) ''a.md''
   \<and> upsertNote present_host note_a (fresh\<lparr>operations := [(''a.md'', Modify)]\<rparr>)
       = fresh\<lparr>operations := [(''a.md'', Modify)]\<rparr>
   \<and> trace (batchAsyncs (upsertNote present_host) [note_a] (fresh\<lparr>operations := [(''a.md'', Modify)]\<rparr>)) = []"
proof -
  have p: "localFile_present present_host (fresh\<lparr>operations := [(''a.md'', Modify)]\<rparr>) ''a.md''"
    by (simp add: localFile_present_def present_host_def idle_host_def store_def)
  from upsert_keeps_local_modify [of note_a "''a.md''" present_host
      "fresh\<lparr>operations := [(''a.md'', Modify)]\<rparr>" "[]", OF _ _ p] p
  show ?thesis by (simp add: note_a_def fresh_def batchAsyncs_def)
qed





subsection \<open>Pull: the removal of internal and config paths\<close>

lemma trace_local_call: "trace (local_call h a t) = trace t @ [a]"
  by (simp add: local_call_def Let_def)

lemma trace_fold_local_call:
  "trace (fold (\<lambda>e. local_call h (g e)) es t) = trace t @ map g es"
  by (induction es arbitrary: t) (simp_all add: trace_local_call)

lemma calls_since_append: "trace t' = trace t @ cs \<Longrightarrow> calls_since t t' = cs"
  by (simp add: calls_since_def)

lemma split_slash_nonempty: "split_slash s \<noteq> []"
  by (induction s) (auto split: list.splits)

lemma length_split_slash_append:
  "length (split_slash (xs @ ys)) + 1 = length (split_slash xs) + length (split_slash ys)"
proof (induction xs)
  case Nil
  then show ?case by simp
next
  case (Cons c cs)
  then show ?case
    using split_slash_nonempty [of "cs @ ys"] split_slash_nonempty [of cs]
    by (auto split: list.splits)
qed

lemma depth_below:
  assumes "startsWith d (a @ ''/'')"
  shows "depth a < depth d"
proof -
  from assms obtain r where d: "d = (a @ ''/'') @ r"
    by (auto simp: startsWith_def prefix_def)
  have "length (split_slash (a @ (''/'' @ r))) + 1 = length (split_slash a) + length (split_slash (''/'' @ r))"
    by (rule length_split_slash_append)
  moreover have "length (split_slash (''/'' @ r)) = Suc (length (split_slash r))" by simp
  moreover have "0 < length (split_slash r)" using split_slash_nonempty [of r] by simp
  ultimately show ?thesis unfolding d depth_def by simp
qed

lemma depth_le_maxDepth: "p \<in> set ps \<Longrightarrow> depth p \<le> maxDepth ps"
proof -
  have gen: "\<And>n. m \<in> set ms \<Longrightarrow> m \<le> fold max ms (n::nat)" for m ms
  proof (induction ms)
    case Nil
    then show ?case by simp
  next
    case (Cons a ms)
    have mono: "\<And>n. n \<le> fold max ms (n::nat)"
      by (induction ms) (auto intro: order_trans [OF max.cobounded2])
    from Cons show ?case
      using mono [of "max a n"] by (cases "m = a") auto
  qed
  assume "p \<in> set ps"
  then have "depth p \<in> set (map depth ps)" by simp
  from gen [OF this] show ?thesis by (simp add: maxDepth_def)
qed

lemma depth_pos: "0 < depth p"
  using split_slash_nonempty [of p] by (simp add: depth_def)

lemma covers_refl: "covers a a"
  by (simp add: covers_def)

lemma covers_trans: "covers a b \<Longrightarrow> covers b c \<Longrightarrow> covers a c"
  by (auto simp: covers_def startsWith_def prefix_def)

lemma dropCovered_filter:
  "dropCovered path_of fs remaining =
     filter (\<lambda>x. \<forall>f \<in> set fs. \<not> covers (path_of f) (path_of x)) remaining"
  unfolding dropCovered_def
proof (induction fs arbitrary: remaining)
  case Nil
  then show ?case by simp
next
  case (Cons f fs)
  show ?case by (simp add: Cons.IH conj_commute)
qed


lemma trashStep_inv:
  assumes inv: "trash_inv orig ea d t0 m j st"
    and ea: "ea \<in> set orig" "is_folder_entry ea"
    and below: "startsWith d (cd_path ea @ ''/'')"
  shows "trash_inv orig ea d t0 m (Suc j) (trashStep h m j st)"
proof -
  define rem where "rem = fst st"
  define fs where "fs = filter (\<lambda>e. is_folder_entry e \<and> depth (cd_path e) = j) rem"
  define rem' where "rem' = filter (\<lambda>x. \<forall>f \<in> set fs. \<not> covers (cd_path f) (cd_path x)) rem"
  have step: "trashStep h m j st =
      (rem', fold (\<lambda>e. local_call h (m (cd_path e))) fs (snd st))"
    by (simp add: trashStep_def Let_def dropCovered_filter rem_def fs_def rem'_def)
  from inv have sub: "set rem \<subseteq> set orig"
    and gone: "\<And>x y. x \<in> set orig \<Longrightarrow> x \<notin> set rem \<Longrightarrow> y \<in> set rem \<Longrightarrow> \<not> covers (cd_path x) (cd_path y)"
    and early: "depth (cd_path ea) < j \<Longrightarrow> ea \<notin> set rem"
    by (auto simp: trash_inv_def rem_def)
  from inv obtain ps where ps: "trace (snd st) = trace t0 @ map m ps" "d \<notin> set ps"
    by (auto simp: trash_inv_def)
  have cov: "covers (cd_path ea) d"
    using below by (simp add: covers_def)
  have c1: "set rem' \<subseteq> set orig"
    using sub by (auto simp: rem'_def)
  have c2: "\<not> covers (cd_path x) (cd_path y)"
    if "x \<in> set orig" "x \<notin> set rem'" "y \<in> set rem'" for x y
  proof (cases "x \<in> set rem")
    case False
    with gone [OF that(1)] that(3) show ?thesis by (simp add: rem'_def)
  next
    case True
    with that(2) obtain f where f: "f \<in> set fs" "covers (cd_path f) (cd_path x)"
      by (auto simp: rem'_def)
    show ?thesis
    proof
      assume "covers (cd_path x) (cd_path y)"
      with f(2) have "covers (cd_path f) (cd_path y)" by (rule covers_trans)
      with f(1) that(3) show False by (simp add: rem'_def)
    qed
  qed
  have c3: "d \<notin> cd_path ` set fs"
  proof
    assume "d \<in> cd_path ` set fs"
    then obtain y where y: "y \<in> set rem" "depth (cd_path y) = j" "cd_path y = d"
      by (auto simp: fs_def)
    from depth_below [OF below] y have "depth (cd_path ea) < j" by simp
    from early [OF this] gone [OF ea(1) _ y(1)] cov y(3) show False by simp
  qed
  have tr: "trace (fold (\<lambda>e. local_call h (m (cd_path e))) fs (snd st))
      = trace t0 @ map m (ps @ map cd_path fs)"
    by (simp add: trace_fold_local_call ps(1) comp_def)
  have c4: "ea \<notin> set rem'" if "depth (cd_path ea) < Suc j"
  proof (cases "depth (cd_path ea) < j")
    case True
    from early [OF this] show ?thesis by (simp add: rem'_def)
  next
    case False
    with that have dj: "depth (cd_path ea) = j" by simp
    show ?thesis
    proof
      assume "ea \<in> set rem'"
      then have "ea \<in> set rem" "\<forall>f \<in> set fs. \<not> covers (cd_path f) (cd_path ea)"
        by (simp_all add: rem'_def)
      moreover from \<open>ea \<in> set rem\<close> ea(2) dj have "ea \<in> set fs" by (simp add: fs_def)
      ultimately show False using covers_refl by blast
    qed
  qed
  have "\<exists>qs. trace (fold (\<lambda>e. local_call h (m (cd_path e))) fs (snd st)) = trace t0 @ map m qs
      \<and> d \<notin> set qs"
    using tr ps(2) c3 by (intro exI [of _ "ps @ map cd_path fs"]) auto
  with c1 c2 c4 show ?thesis
    unfolding step trash_inv_def by (simp only: fst_conv snd_conv) blast
qed

lemma trash_loop_inv:
  assumes ea: "ea \<in> set orig" "is_folder_entry ea"
    and below: "startsWith d (cd_path ea @ ''/'')"
  shows "trash_inv orig ea d t0 m j (fold (trashStep h m) [1 ..< j] (orig, t0))"
proof (induction j)
  case 0
  show ?case by (simp add: trash_inv_def)
next
  case (Suc j)
  show ?case
  proof (cases "j = 0")
    case True
    then show ?thesis using depth_pos [of "cd_path ea"] by (simp add: trash_inv_def)
  next
    case False
    then have "[1 ..< Suc j] = [1 ..< j] @ [j]" by simp
    with trashStep_inv [OF Suc.IH ea below, of h] show ?thesis by simp
  qed
qed

lemma trashConfigs_skips_covered:
  assumes ea: "ea \<in> set orig" "is_folder_entry ea"
    and below: "startsWith d (cd_path ea @ ''/'')"
  shows "\<exists>ps. trace (trashConfigs h m orig t0) = trace t0 @ map m ps \<and> d \<notin> set ps"
proof -
  define n where "n = maxDepth (map cd_path (filter is_folder_entry orig))"
  define st where "st = fold (trashStep h m) [1 ..< Suc n] (orig, t0)"
  have folders: "filter is_folder_entry orig \<noteq> []"
    using ea by (auto simp: filter_empty_conv)
  have run: "trashConfigs h m orig t0 = fold (\<lambda>e. local_call h (m (cd_path e))) (fst st) (snd st)"
    using folders by (simp add: trashConfigs_def Let_def st_def n_def)
  have inv: "trash_inv orig ea d t0 m (Suc n) st"
    unfolding st_def by (rule trash_loop_inv [OF ea below])
  have "cd_path ea \<in> set (map cd_path (filter is_folder_entry orig))"
    using ea by simp
  then have "depth (cd_path ea) \<le> n"
    unfolding n_def by (rule depth_le_maxDepth)
  with inv have gone: "ea \<notin> set (fst st)"
    and cov: "\<And>y. y \<in> set (fst st) \<Longrightarrow> \<not> covers (cd_path ea) (cd_path y)"
    using ea(1) by (auto simp: trash_inv_def)
  from inv obtain ps where ps: "trace (snd st) = trace t0 @ map m ps" "d \<notin> set ps"
    by (auto simp: trash_inv_def)
  have "d \<notin> cd_path ` set (fst st)"
    using cov below by (auto simp: covers_def)
  with ps have "trace (trashConfigs h m orig t0) = trace t0 @ map m (ps @ map cd_path (fst st))
      \<and> d \<notin> set (ps @ map cd_path (fst st))"
    by (simp add: run trace_fold_local_call comp_def)
  then show ?thesis by blast
qed


lemma trashStep_covering:
  assumes tr: "trace (snd st) = trace t0 @ cs"
    and cov: "\<And>x. x \<in> set orig \<Longrightarrow> x \<in> set (fst st) \<or> (\<exists>p. covers p (cd_path x) \<and> m p \<in> set cs)"
  shows "\<exists>cs'. trace (snd (trashStep h m j st)) = trace t0 @ cs'
      \<and> (\<forall>x \<in> set orig. x \<in> set (fst (trashStep h m j st)) \<or> (\<exists>p. covers p (cd_path x) \<and> m p \<in> set cs'))"
proof -
  define fs where "fs = filter (\<lambda>e. is_folder_entry e \<and> depth (cd_path e) = j) (fst st)"
  define cs' where "cs' = cs @ map (\<lambda>e. m (cd_path e)) fs"
  have step: "trashStep h m j st =
      (filter (\<lambda>x. \<forall>f \<in> set fs. \<not> covers (cd_path f) (cd_path x)) (fst st),
       fold (\<lambda>e. local_call h (m (cd_path e))) fs (snd st))"
    by (simp add: trashStep_def Let_def dropCovered_filter fs_def)
  have "trace (snd (trashStep h m j st)) = trace t0 @ cs'"
    by (simp add: step trace_fold_local_call tr cs'_def)
  moreover have "x \<in> set (fst (trashStep h m j st)) \<or> (\<exists>p. covers p (cd_path x) \<and> m p \<in> set cs')"
    if "x \<in> set orig" for x
    using cov [OF that] unfolding step cs'_def by auto
  ultimately show ?thesis by blast
qed

lemma trash_loop_covering:
  "\<exists>cs. trace (snd (fold (trashStep h m) ks (orig, t0))) = trace t0 @ cs
      \<and> (\<forall>x \<in> set orig. x \<in> set (fst (fold (trashStep h m) ks (orig, t0)))
            \<or> (\<exists>p. covers p (cd_path x) \<and> m p \<in> set cs))"
proof (induction ks rule: rev_induct)
  case Nil
  show ?case by simp
next
  case (snoc k ks)
  then obtain cs where cs: "trace (snd (fold (trashStep h m) ks (orig, t0))) = trace t0 @ cs"
    "\<And>x. x \<in> set orig \<Longrightarrow> x \<in> set (fst (fold (trashStep h m) ks (orig, t0)))
            \<or> (\<exists>p. covers p (cd_path x) \<and> m p \<in> set cs)"
    by blast
  from trashStep_covering [of "fold (trashStep h m) ks (orig, t0)" t0 cs orig m h k, OF cs]
  show ?case by simp
qed

lemma trashConfigs_covers_all:
  assumes "x \<in> set orig"
  shows "\<exists>p. covers p (cd_path x) \<and> m p \<in> set (calls_since t0 (trashConfigs h m orig t0))"
proof -
  define st where "st =
    (if filter is_folder_entry orig \<noteq> []
     then fold (trashStep h m) [1 ..< Suc (maxDepth (map cd_path (filter is_folder_entry orig)))] (orig, t0)
     else (orig, t0))"
  have run: "trashConfigs h m orig t0 = fold (\<lambda>e. local_call h (m (cd_path e))) (fst st) (snd st)"
    by (simp add: trashConfigs_def Let_def st_def)
  have "\<exists>cs. trace (snd st) = trace t0 @ cs
      \<and> (\<forall>x \<in> set orig. x \<in> set (fst st) \<or> (\<exists>p. covers p (cd_path x) \<and> m p \<in> set cs))"
  proof (cases "filter is_folder_entry orig \<noteq> []")
    case True
    then show ?thesis unfolding st_def using trash_loop_covering [of h m _ orig t0] by simp
  next
    case False
    then show ?thesis unfolding st_def by simp
  qed
  then obtain cs where cs: "trace (snd st) = trace t0 @ cs"
    "\<And>x. x \<in> set orig \<Longrightarrow> x \<in> set (fst st) \<or> (\<exists>p. covers p (cd_path x) \<and> m p \<in> set cs)"
    by blast
  have calls: "calls_since t0 (trashConfigs h m orig t0) = cs @ map (\<lambda>e. m (cd_path e)) (fst st)"
    by (rule calls_since_append) (simp add: run trace_fold_local_call cs(1))
  from cs(2) [OF assms] show ?thesis
  proof
    assume "x \<in> set (fst st)"
    then have "m (cd_path x) \<in> set (calls_since t0 (trashConfigs h m orig t0))"
      by (simp add: calls)
    with covers_refl show ?thesis by blast
  next
    assume "\<exists>p. covers p (cd_path x) \<and> m p \<in> set cs"
    then show ?thesis by (auto simp: calls)
  qed
qed

lemma rm_inv_weaken:
  assumes "rm_inv t0 k t" "k' \<le> k"
  shows "rm_inv t0 k' t"
proof -
  from assms(1) obtain cs where cs: "trace t = trace t0 @ cs" "sorted_wrt deeper_first cs"
    "\<And>x. AdapterRmdir x \<in> set cs \<Longrightarrow> k \<le> depth x"
    by (auto simp: rm_inv_def)
  from cs(3) assms(2) have "\<forall>x. AdapterRmdir x \<in> set cs \<longrightarrow> k' \<le> depth x"
    by (meson order_trans)
  with cs(1,2) show ?thesis unfolding rm_inv_def by blast
qed

lemma rmdirIfEmpty_inv:
  assumes "rm_inv t0 k t" "depth folder = k"
  shows "rm_inv t0 k (rmdirIfEmpty h folder t)"
proof (cases "adapter_list_size (store h t) folder \<noteq> 0")
  case True
  with assms(1) show ?thesis by (simp add: rmdirIfEmpty_def)
next
  case False
  from assms(1) obtain cs where cs: "trace t = trace t0 @ cs" "sorted_wrt deeper_first cs"
    "\<And>x. AdapterRmdir x \<in> set cs \<Longrightarrow> k \<le> depth x"
    by (auto simp: rm_inv_def)
  have "deeper_first c (AdapterRmdir folder)" if "c \<in> set cs" for c
    using cs(3) that assms(2) by (cases c) (auto simp: deeper_first_def)
  with cs(2) have "sorted_wrt deeper_first (cs @ [AdapterRmdir folder])"
    by (simp add: sorted_wrt_append)
  moreover have "trace (rmdirIfEmpty h folder t) = trace t0 @ (cs @ [AdapterRmdir folder])"
    using False by (simp add: rmdirIfEmpty_def trace_local_call cs(1))
  moreover have "\<forall>x. AdapterRmdir x \<in> set (cs @ [AdapterRmdir folder]) \<longrightarrow> k \<le> depth x"
    using cs(3) assms(2) by auto
  ultimately show ?thesis unfolding rm_inv_def by blast
qed

lemma rmdir_batch_inv:
  assumes "rm_inv t0 k t" "\<And>f. f \<in> set batch \<Longrightarrow> depth f = k"
  shows "rm_inv t0 k (fold (rmdirIfEmpty h) batch t)"
  using assms
proof (induction batch arbitrary: t)
  case Nil
  then show ?case by simp
next
  case (Cons f batch)
  from Cons.prems have "rm_inv t0 k (rmdirIfEmpty h f t)"
    by (auto intro: rmdirIfEmpty_inv)
  with Cons show ?case by simp
qed

lemma rmdir_batches_inv:
  assumes "sorted_wrt (>) ks" "\<And>k. k \<in> set ks \<Longrightarrow> k \<le> bound" "rm_inv t0 bound t"
  shows "\<exists>k'. rm_inv t0 k' (fold (\<lambda>k. fold (rmdirIfEmpty h) (filter (\<lambda>p. depth p = k) ps)) ks t)"
  using assms
proof (induction ks arbitrary: t bound)
  case Nil
  then show ?case by auto
next
  case (Cons k ks)
  from Cons.prems have "rm_inv t0 k t" by (auto intro: rm_inv_weaken [of t0 bound t k])
  then have step: "rm_inv t0 k (fold (rmdirIfEmpty h) (filter (\<lambda>p. depth p = k) ps) t)"
    by (rule rmdir_batch_inv) simp
  from Cons.prems(1) have rest: "sorted_wrt (>) ks" and le: "\<And>j. j \<in> set ks \<Longrightarrow> j \<le> k"
    by auto
  from Cons.IH [OF rest le step] show ?case by simp
qed

lemma removeConfigs_sorted:
  "\<exists>cs. trace (removeConfigs h orig t) = trace t @ cs \<and> sorted_wrt deeper_first cs"
proof -
  define files where "files = filter (\<lambda>e. cd_type e = File_type) orig"
  define t1 where "t1 = fold (\<lambda>e. local_call h (AdapterRemove (cd_path e))) files t"
  define ps where "ps = map cd_path (filter is_folder_entry orig)"
  have t1: "trace t1 = trace t @ map (\<lambda>e. AdapterRemove (cd_path e)) files"
    by (simp add: t1_def trace_fold_local_call)
  have "sorted_wrt deeper_first (map (\<lambda>e. AdapterRemove (cd_path e)) files)"
    by (induction files) (simp_all add: deeper_first_def)
  with t1 have start: "rm_inv t (Suc (maxDepth ps)) t1"
    unfolding rm_inv_def by auto
  have run: "removeConfigs h orig t =
      fold (\<lambda>k. fold (rmdirIfEmpty h) (filter (\<lambda>p. depth p = k) ps)) (rev [1 ..< Suc (maxDepth ps)]) t1"
    unfolding removeConfigs_def Let_def foldersToBatches_def rev_map fold_map comp_def
      files_def t1_def ps_def ..
  have desc: "sorted_wrt (>) (rev [1 ..< Suc (maxDepth ps)])"
    unfolding sorted_wrt_rev by (rule sorted_wrt_upt)
  have bound: "k \<le> Suc (maxDepth ps)" if "k \<in> set (rev [1 ..< Suc (maxDepth ps)])" for k
    using that by auto
  from rmdir_batches_inv [OF desc bound start, of h ps]
  obtain k' where "rm_inv t k' (removeConfigs h orig t)"
    unfolding run by blast
  then show ?thesis unfolding rm_inv_def by blast
qed

lemma sorted_issued_before:
  "sorted_wrt R cs \<Longrightarrow> issued_before a b cs \<Longrightarrow> R a b"
  by (induction cs) (auto split: if_splits)

lemma issued_before_total:
  "a \<in> set cs \<Longrightarrow> b \<in> set cs \<Longrightarrow> a \<noteq> b \<Longrightarrow> issued_before a b cs \<or> issued_before b a cs"
  by (induction cs) auto


lemma in_map_filter: "f x = Some y \<Longrightarrow> x \<in> set xs \<Longrightarrow> y \<in> set (List.map_filter f xs)"
  by (force simp: List.map_filter_def)

lemma calls_since_trashConfigs_skips:
  assumes "ea \<in> set orig" "is_folder_entry ea" "startsWith d (cd_path ea @ ''/'')" "inj m"
  shows "m d \<notin> set (calls_since t (trashConfigs h m orig t))"
proof -
  from trashConfigs_skips_covered [OF assms(1-3), of h m t]
  obtain ps where ps: "trace (trashConfigs h m orig t) = trace t @ map m ps" "d \<notin> set ps"
    by blast
  from ps(1) have "calls_since t (trashConfigs h m orig t) = map m ps"
    by (rule calls_since_append)
  with ps(2) assms(4) show ?thesis by (auto dest: injD)
qed

lemma deeper_first_rmdir: "deeper_first (AdapterRmdir x) (AdapterRmdir y) \<longleftrightarrow> depth y \<le> depth x"
  by (simp add: deeper_first_def)

lemma calls_since_removeConfigs_order:
  assumes "depth a < depth d"
  shows "\<not> issued_before (AdapterRmdir a) (AdapterRmdir d) (calls_since t (removeConfigs h orig t))"
proof
  assume before: "issued_before (AdapterRmdir a) (AdapterRmdir d) (calls_since t (removeConfigs h orig t))"
  from removeConfigs_sorted [of h orig t]
  obtain cs where cs: "trace (removeConfigs h orig t) = trace t @ cs" "sorted_wrt deeper_first cs"
    by blast
  from cs(1) have "calls_since t (removeConfigs h orig t) = cs" by (rule calls_since_append)
  with before cs(2) have "deeper_first (AdapterRmdir a) (AdapterRmdir d)"
    by (auto dest: sorted_issued_before)
  with assms show False by (simp add: deeper_first_rmdir)
qed

text \<open>
  C9 as stated fails under the trash policies: the folders \<open>a\<close> and \<open>a/b\<close> are removed, the
  only call is the disposal of \<open>a\<close>, and no call for \<open>a/b\<close> comes before it.
\<close>

theorem config_removal_trash_skips_descendant:
  "List.map_filter (configDeletion (folder_host Trash_local) two_dirs) [''1'', ''2'']
     = [\<lparr>cd_path = ''a'', cd_type = Folder_type\<rparr>, \<lparr>cd_path = ''a/b'', cd_type = Folder_type\<rparr>]
   \<and> calls_since two_dirs (deleteConfigs (folder_host Trash_local) [''1'', ''2''] two_dirs)
     = [AdapterTrashLocal ''a'']
   \<and> \<not> issued_before (AdapterTrashLocal ''a/b'') (AdapterTrashLocal ''a'')
         (calls_since two_dirs (deleteConfigs (folder_host Trash_local) [''1'', ''2''] two_dirs))"
  by (simp add: deleteConfigs_def folder_host_def idle_host_def idle_store_def two_dirs_def fresh_def
      store_def configDeletion_def List.map_filter_def trashConfigs_def is_folder_entry_def
      maxDepth_def depth_def trashStep_def dropCovered_def covers_def startsWith_def
      local_call_def replay_def calls_since_def)

text \<open>
  C9, amended. For two removed directories, \<open>a\<close> an ancestor of \<open>d\<close>: under the local-trash
  and the system-trash policy no disposal call is issued for \<open>d\<close>, which lies under a path
  that is disposed of (directories go by increasing depth and what a disposed directory
  covers is skipped); under permanent removal no \<^verbatim>\<open>rmdir\<close> of \<open>a\<close> comes before one of \<open>d\<close>,
  and when both are issued the one of \<open>d\<close> comes first (directories go by decreasing depth).
\<close>

theorem config_removal_order:
  fixes h t fids
  defines "cs \<equiv> calls_since t (deleteConfigs h fids t)"
  assumes "fa \<in> set fids" and "fd \<in> set fids"
    and "configDeletion h t fa = Some \<lparr>cd_path = a, cd_type = Folder_type\<rparr>"
    and "configDeletion h t fd = Some \<lparr>cd_path = d, cd_type = Folder_type\<rparr>"
    and "startsWith d (a @ ''/'')"
  shows "(trashOption (store h t) = Trash_local \<longrightarrow>
            AdapterTrashLocal d \<notin> set cs \<and> (\<exists>p. covers p d \<and> AdapterTrashLocal p \<in> set cs))
       \<and> (trashOption (store h t) = Trash_system \<longrightarrow>
            AdapterTrashSystem d \<notin> set cs \<and> (\<exists>p. covers p d \<and> AdapterTrashSystem p \<in> set cs))
       \<and> (trashOption (store h t) = Trash_none \<longrightarrow>
            \<not> issued_before (AdapterRmdir a) (AdapterRmdir d) cs
            \<and> (AdapterRmdir a \<in> set cs \<and> AdapterRmdir d \<in> set cs
                 \<longrightarrow> issued_before (AdapterRmdir d) (AdapterRmdir a) cs))"
proof -
  define orig where "orig = List.map_filter (configDeletion h t) fids"
  define ea where "ea = \<lparr>cd_path = a, cd_type = Folder_type\<rparr>"
  define ed where "ed = \<lparr>cd_path = d, cd_type = Folder_type\<rparr>"
  have ea: "ea \<in> set orig" "is_folder_entry ea" "cd_path ea = a"
    using in_map_filter [of "configDeletion h t" fa _ fids, OF assms(4,2)]
    by (simp_all add: orig_def ea_def is_folder_entry_def)
  have ed: "ed \<in> set orig" "cd_path ed = d"
    using in_map_filter [of "configDeletion h t" fd _ fids, OF assms(5,3)]
    by (simp_all add: orig_def ed_def)
  have below: "startsWith d (cd_path ea @ ''/'')"
    using assms(6) ea(3) by simp
  have lt: "depth a < depth d"
    using assms(6) by (rule depth_below)
  have neq: "AdapterRmdir a \<noteq> AdapterRmdir d"
    using lt by auto
  show ?thesis
  proof (cases "trashOption (store h t)")
    case Trash_local
    then have run: "cs = calls_since t (trashConfigs h AdapterTrashLocal orig t)"
      by (simp add: cs_def deleteConfigs_def orig_def)
    have "inj AdapterTrashLocal" by (simp add: inj_def)
    from calls_since_trashConfigs_skips [OF ea(1,2) below this, of t h]
      trashConfigs_covers_all [OF ed(1), of AdapterTrashLocal t h] ed(2) Trash_local
    show ?thesis by (simp add: run)
  next
    case Trash_system
    then have run: "cs = calls_since t (trashConfigs h AdapterTrashSystem orig t)"
      by (simp add: cs_def deleteConfigs_def orig_def)
    have "inj AdapterTrashSystem" by (simp add: inj_def)
    from calls_since_trashConfigs_skips [OF ea(1,2) below this, of t h]
      trashConfigs_covers_all [OF ed(1), of AdapterTrashSystem t h] ed(2) Trash_system
    show ?thesis by (simp add: run)
  next
    case Trash_none
    then have run: "cs = calls_since t (removeConfigs h orig t)"
      by (simp add: cs_def deleteConfigs_def orig_def)
    from calls_since_removeConfigs_order [OF lt, of t h orig]
    have no: "\<not> issued_before (AdapterRmdir a) (AdapterRmdir d) cs"
      by (simp add: run)
    with issued_before_total [OF _ _ neq, of cs] Trash_none show ?thesis by auto
  qed
qed

lemma two_dirs_entries:
  "configDeletion (folder_host policy) two_dirs ''1'' = Some \<lparr>cd_path = ''a'', cd_type = Folder_type\<rparr>"
  "configDeletion (folder_host policy) two_dirs ''2'' = Some \<lparr>cd_path = ''a/b'', cd_type = Folder_type\<rparr>"
  by (simp_all add: configDeletion_def folder_host_def idle_host_def idle_store_def two_dirs_def
      fresh_def store_def)

theorem config_removal_order_witness:
  "AdapterTrashSystem ''a/b'' \<notin> set (calls_since two_dirs (deleteConfigs (folder_host Trash_system) [''1'', ''2''] two_dirs))
   \<and> AdapterRmdir ''a'' \<in> set (calls_since two_dirs (deleteConfigs (folder_host Trash_none) [''1'', ''2''] two_dirs))
   \<and> AdapterRmdir ''a/b'' \<in> set (calls_since two_dirs (deleteConfigs (folder_host Trash_none) [''1'', ''2''] two_dirs))
   \<and> issued_before (AdapterRmdir ''a/b'') (AdapterRmdir ''a'')
        (calls_since two_dirs (deleteConfigs (folder_host Trash_none) [''1'', ''2''] two_dirs))"
proof -
  have below: "startsWith ''a/b'' (''a'' @ ''/'')" by (simp add: startsWith_def)
  have sys: "trashOption (store (folder_host Trash_system) two_dirs) = Trash_system"
    and none: "trashOption (store (folder_host Trash_none) two_dirs) = Trash_none"
    by (simp_all add: folder_host_def idle_host_def store_def)
  have issued: "calls_since two_dirs (deleteConfigs (folder_host Trash_none) [''1'', ''2''] two_dirs)
      = [AdapterRmdir ''a/b'', AdapterRmdir ''a'']"
    by (simp add: deleteConfigs_def folder_host_def idle_host_def idle_store_def two_dirs_def fresh_def
      store_def configDeletion_def List.map_filter_def removeConfigs_def is_folder_entry_def
      foldersToBatches_def maxDepth_def depth_def rmdirIfEmpty_def
      local_call_def replay_def calls_since_def)
  from config_removal_order [OF _ _ two_dirs_entries [of Trash_system] below, of "[''1'', ''2'']"] sys
  have a: "AdapterTrashSystem ''a/b'' \<notin> set (calls_since two_dirs (deleteConfigs (folder_host Trash_system) [''1'', ''2''] two_dirs))"
    by simp
  from config_removal_order [OF _ _ two_dirs_entries [of Trash_none] below, of "[''1'', ''2'']"] none issued
  have b: "issued_before (AdapterRmdir ''a/b'') (AdapterRmdir ''a'')
        (calls_since two_dirs (deleteConfigs (folder_host Trash_none) [''1'', ''2''] two_dirs))"
    by simp
  from a b issued show ?thesis by simp
qed

subsection \<open>The silent pull keeps the checkpoint\<close>

lemma keeps_refl: "keeps_checkpoint t t"
  by (simp add: keeps_checkpoint_def)

lemma keeps_trans: "keeps_checkpoint t t1 \<Longrightarrow> keeps_checkpoint t1 t2 \<Longrightarrow> keeps_checkpoint t t2"
  by (auto simp: keeps_checkpoint_def)

lemma keeps_fold:
  assumes "\<And>x u. keeps_checkpoint u (f x u)"
  shows "keeps_checkpoint t (fold f xs t)"
proof (induction xs arbitrary: t)
  case Nil
  show ?case by (simp add: keeps_refl)
next
  case (Cons x xs)
  from keeps_trans [OF assms [of t x] Cons.IH [of "f x t"]] show ?case by simp
qed

lemma keeps_fold_snd:
  assumes "\<And>x st. keeps_checkpoint (snd st) (snd (f x st))"
  shows "keeps_checkpoint (snd st) (snd (fold f xs st))"
proof (induction xs arbitrary: st)
  case Nil
  show ?case by (simp add: keeps_refl)
next
  case (Cons x xs)
  from keeps_trans [OF assms [of st x] Cons.IH [of "f x st"]] show ?case by simp
qed

lemma keeps_operations: "keeps_checkpoint t (t\<lparr>operations := ops\<rparr>)"
  by (simp add: keeps_checkpoint_def)

lemma keeps_index: "keeps_checkpoint t (t\<lparr>driveIdToPath := idx\<rparr>)"
  by (simp add: keeps_checkpoint_def)

lemma keeps_emit: "\<not> uploads a \<Longrightarrow> keeps_checkpoint t (emit a t)"
  by (simp add: keeps_checkpoint_def emit_def)

lemma keeps_local_call: "\<not> uploads a \<Longrightarrow> keeps_checkpoint t (local_call h a t)"
  by (simp add: keeps_checkpoint_def local_call_def Let_def)

lemma keeps_restoreOperation: "keeps_checkpoint t (restoreOperation old p t)"
  by (cases old) (simp_all add: restoreOperation_def keeps_operations)

lemma keeps_createFolder: "keeps_checkpoint t (createFolder h p t)"
  unfolding createFolder_def Let_def
  by (rule keeps_trans [OF keeps_local_call keeps_restoreOperation]) simp

lemma keeps_modifyFile: "keeps_checkpoint t (modifyFile h f c m t)"
  unfolding modifyFile_def Let_def
  by (rule keeps_trans [OF keeps_local_call keeps_restoreOperation]) simp

lemma keeps_upsertFile: "keeps_checkpoint t (upsertFile h p c m t)"
  unfolding upsertFile_def Let_def
  by (rule keeps_trans [OF keeps_local_call keeps_restoreOperation]) simp

lemma keeps_deleteFile: "keeps_checkpoint t (deleteFile h f t)"
  unfolding deleteFile_def Let_def
  by (rule keeps_trans [OF keeps_local_call keeps_operations]) simp

lemma keeps_resolveRemoval: "keeps_checkpoint t (snd (resolveRemoval h fid t))"
  by (simp add: resolveRemoval_def Let_def keeps_checkpoint_def split: option.splits)

lemma keeps_resolveRemovals: "keeps_checkpoint t (snd (resolveRemovals h fids t))"
proof (induction fids arbitrary: t)
  case Nil
  show ?case by (simp add: keeps_refl)
next
  case (Cons fid fids)
  show ?case
    unfolding resolveRemovals_snd
    by (rule keeps_trans [OF keeps_resolveRemoval Cons.IH])
qed

lemma keeps_minimumStep: "keeps_checkpoint (snd st) (snd (minimumStep h k st))"
  by (simp add: minimumStep_def Let_def keeps_fold keeps_deleteFile)

lemma keeps_deleteFilesMinimumOperations:
  "keeps_checkpoint t (deleteFilesMinimumOperations h files t)"
proof -
  define st where "st = fold (minimumStep h)
      [1 ..< Suc (maxDepth (map file_path (filter is_TFolder files)))] (files, t)"
  have "keeps_checkpoint (snd (files, t)) (snd st)"
    unfolding st_def by (rule keeps_fold_snd) (rule keeps_minimumStep)
  moreover have "keeps_checkpoint (snd st) (fold (deleteFile h) (fst st) (snd st))"
    by (rule keeps_fold) (rule keeps_deleteFile)
  ultimately have "keeps_checkpoint t (fold (deleteFile h) (fst st) (snd st))"
    by (auto elim: keeps_trans)
  then show ?thesis
    unfolding deleteFilesMinimumOperations_def Let_def st_def .
qed

lemma keeps_deleteFiles: "keeps_checkpoint t (deleteFiles h pathToId deletions t)"
  unfolding deleteFiles_def Let_def
  by (auto split: prod.splits intro: keeps_trans [OF keeps_operations keeps_deleteFilesMinimumOperations])

lemma keeps_upsertFolder: "keeps_checkpoint t (upsertFolder h folder t)"
  unfolding upsertFolder_def Let_def
  by (auto intro: keeps_operations keeps_trans [OF keeps_operations keeps_createFolder])

lemma keeps_upsertNote: "keeps_checkpoint t (upsertNote h file t)"
  unfolding upsertNote_def Let_def
  by (auto split: option.splits
      intro: keeps_refl keeps_operations
        keeps_trans [OF keeps_emit keeps_modifyFile] keeps_trans [OF keeps_emit keeps_upsertFile])

lemma keeps_upsertFiles: "keeps_checkpoint t (upsertFiles h allRecentFiles t)"
proof -
  have folders: "keeps_checkpoint u (fold (\<lambda>batch. fold (upsertFolder h) batch) batches u)" for batches u
    by (rule keeps_fold) (rule keeps_fold, rule keeps_upsertFolder)
  have tasks: "keeps_checkpoint u (batchAsyncs (upsertNote h) ns u)" for ns u
    unfolding batchAsyncs_def by (rule keeps_fold) (rule keeps_upsertNote)
  show ?thesis
    unfolding upsertFiles_def Let_def
    by (auto intro: tasks keeps_trans [OF folders tasks])
qed

lemma keeps_trashConfigs:
  assumes "\<And>p. \<not> uploads (m p)"
  shows "keeps_checkpoint t (trashConfigs h m entries t)"
proof -
  define st where "st =
    (if filter is_folder_entry entries \<noteq> []
     then fold (trashStep h m) [1 ..< Suc (maxDepth (map cd_path (filter is_folder_entry entries)))] (entries, t)
     else (entries, t))"
  have step: "keeps_checkpoint (snd u) (snd (trashStep h m k u))" for u k
    by (simp add: trashStep_def Let_def keeps_fold keeps_local_call assms)
  have loop: "keeps_checkpoint (snd u) (snd (fold (trashStep h m) ks u))" for u ks
    by (rule keeps_fold_snd) (rule step)
  have "keeps_checkpoint t (snd st)"
    unfolding st_def using loop [of "(entries, t)"] by (simp add: keeps_refl del: upt_Suc)
  moreover have "keeps_checkpoint (snd st) (fold (\<lambda>e. local_call h (m (cd_path e))) (fst st) (snd st))"
    by (rule keeps_fold) (simp add: keeps_local_call assms)
  ultimately have "keeps_checkpoint t (fold (\<lambda>e. local_call h (m (cd_path e))) (fst st) (snd st))"
    by (rule keeps_trans)
  then show ?thesis
    unfolding trashConfigs_def Let_def st_def .
qed

lemma keeps_rmdirIfEmpty: "keeps_checkpoint t (rmdirIfEmpty h folder t)"
  by (simp add: rmdirIfEmpty_def keeps_refl keeps_local_call)

lemma keeps_removeConfigs: "keeps_checkpoint t (removeConfigs h entries t)"
proof -
  have files: "keeps_checkpoint u (fold (\<lambda>e. local_call h (AdapterRemove (cd_path e))) es u)" for es u
    by (rule keeps_fold) (simp add: keeps_local_call)
  have folders: "keeps_checkpoint u (fold (\<lambda>batch. fold (rmdirIfEmpty h) batch) batches u)" for batches u
    by (rule keeps_fold) (rule keeps_fold, rule keeps_rmdirIfEmpty)
  show ?thesis
    unfolding removeConfigs_def Let_def
    by (rule keeps_trans [OF files folders])
qed

lemma keeps_deleteConfigs: "keeps_checkpoint t (deleteConfigs h fids t)"
  unfolding deleteConfigs_def Let_def
  by (auto split: trash_option.splits intro: keeps_trashConfigs keeps_removeConfigs)

lemma keeps_pullBody_silent: "keeps_checkpoint t (snd (pullBody h True t))"
proof (cases "searchModifiedAfter (remote h t) (lastSyncedAt t)")
  case None
  then show ?thesis by (simp add: pullBody_def keeps_emit)
next
  case (Some recentlyModified)
  show ?thesis
  proof (cases "getChanges (remote h t) (changesToken t)")
    case None
    with Some show ?thesis by (simp add: pullBody_def Let_def keeps_emit)
  next
    case changes: (Some changes)
    define r where "r = resolveRemovals h (removedIds changes) t"
    have t1: "keeps_checkpoint t (snd r)"
      unfolding r_def by (rule keeps_resolveRemovals)
    have tail: "keeps_checkpoint t
        (deleteConfigs h fids (upsertFiles h rs (deleteFiles h p2i (fst r) ((snd r)\<lparr>driveIdToPath := idx\<rparr>))))"
      for fids rs p2i idx
    proof -
      let ?t2 = "(snd r)\<lparr>driveIdToPath := idx\<rparr>"
      let ?t3 = "deleteFiles h p2i (fst r) ?t2"
      let ?t4 = "upsertFiles h rs ?t3"
      have "keeps_checkpoint t ?t2" by (rule keeps_trans [OF t1 keeps_index])
      then have "keeps_checkpoint t ?t3" by (rule keeps_trans) (rule keeps_deleteFiles)
      then have "keeps_checkpoint t ?t4" by (rule keeps_trans) (rule keeps_upsertFiles)
      then show ?thesis by (rule keeps_trans) (rule keeps_deleteConfigs)
    qed
    show ?thesis
      using Some changes t1 tail
      by (simp add: pullBody_def Let_def case_prod_beta r_def)
  qed
qed

lemma keeps_pull_silent: "keeps_checkpoint t (snd (pull h True t))"
  by (simp add: pull_def keeps_pullBody_silent)


subsection \<open>Push: the delete phase\<close>

lemma keeps_pushPrepared_trace: "trace (pushPrepared h t) = trace t @ [DriveGetRootFolderId]"
  by (simp add: pushPrepared_def Let_def emit_def)

lemma pushPrepared_frame:
  "lastSyncedAt (pushPrepared h t) = lastSyncedAt t"
  "changesToken (pushPrepared h t) = changesToken t"
  "syncing (pushPrepared h t) = syncing t"
  "driveIdToPath (pushPrepared h t) = driveIdToPath t"
  by (simp_all add: pushPrepared_def Let_def emit_def)

lemma startSync_frame:
  assumes "startSync h t = Inr t2"
  shows "lastSyncedAt t2 = lastSyncedAt t" "changesToken t2 = changesToken t"
    "trace t2 = trace t @ [ShowNotice ''Syncing (0%)'']" "operations t2 = operations t"
  using assms by (auto simp: startSync_def emit_def split: if_splits)

lemma pushDeletes_failure:
  assumes "deletes \<noteq> []"
    and "\<not> batchDelete (remote h t) (map (\<lambda>(p, _). map_of pathsToIds p) deletes)"
  shows "pushDeletes h deletes pathsToIds t =
      (False, t\<lparr>trace := trace t @ [DriveBatchDelete (map (\<lambda>(p, _). map_of pathsToIds p) deletes),
                                  ShowNotice deleteErrorNotice]\<rparr>)"
  using assms by (simp add: pushDeletes_def Let_def emit_def)

lemma silent_pull_idle:
  "remote_after h = (\<lambda>_. r) \<Longrightarrow> searchModifiedAfter r = (\<lambda>_. Some []) \<Longrightarrow> searchHiddenFiles r = []
   \<Longrightarrow> getChanges r = (\<lambda>_. Some []) \<Longrightarrow> pull h True t = (Returned, t)"
  by (simp add: pull_def pullBody_def remote_def removedIds_def)

text \<open>
  C6. When the batch remote-delete call returns the failure sentinel, push returns the error
  notice of the delete phase: the log is the one the delete set was taken from (every
  \<open>delete\<close> entry still in it, nothing cleared), the index is untouched, the two calls after
  the silent pull are the batch delete and the notice, no call of the create, modify or
  config phases is issued since push began, and the checkpoint is the one push began with.
\<close>

theorem push_delete_failure_halts:
  assumes "\<not> syncing t"
    and "confirmPush h (initialOperations (pushPrepared h t))"
    and "startSync h (pushPrepared h t) = Inr t2"
    and "t3 = snd (pull h True t2)"
    and "searchConfig (remote h t3) = Some configOnDrive"
    and "deleteSet h t3 configOnDrive \<noteq> []"
    and "ids = map (\<lambda>(p, _). map_of (invert (driveIdToPath t3)) p) (deleteSet h t3 configOnDrive)"
    and "\<not> batchDelete (remote h t3) ids"
  shows "fst (push h t) = Noticed deleteErrorNotice
       \<and> trace (snd (push h t)) = trace t3 @ [DriveBatchDelete ids, ShowNotice deleteErrorNotice]
       \<and> operations (snd (push h t)) = operations t3
       \<and> set (deletes_of (operations t3)) \<subseteq> set (operations (snd (push h t)))
       \<and> driveIdToPath (snd (push h t)) = driveIdToPath t3
       \<and> filter uploads (calls_since t (snd (push h t))) = []
       \<and> lastSyncedAt (snd (push h t)) = lastSyncedAt t
       \<and> changesToken (snd (push h t)) = changesToken t"
proof -
  have run: "push h t = pushConfirmed h t3"
    using assms(1-4) by (simp add: push_def Let_def)
  have fail: "pushDeletes h (deleteSet h t3 configOnDrive) (invert (driveIdToPath t3)) t3 =
      (False, t3\<lparr>trace := trace t3 @ [DriveBatchDelete ids, ShowNotice deleteErrorNotice]\<rparr>)"
    using pushDeletes_failure [OF assms(6), of h t3 "invert (driveIdToPath t3)"] assms(7,8) by simp
  have res: "push h t =
      (Noticed deleteErrorNotice, t3\<lparr>trace := trace t3 @ [DriveBatchDelete ids, ShowNotice deleteErrorNotice]\<rparr>)"
    unfolding run by (simp add: pushConfirmed_def Let_def assms(5) fail)
  have pulled: "keeps_checkpoint t2 t3"
    unfolding assms(4) by (rule keeps_pull_silent)
  then obtain cs where cs: "trace t3 = trace t2 @ cs" "filter uploads cs = []"
    by (auto simp: keeps_checkpoint_def)
  have t2: "trace t2 = trace t @ [DriveGetRootFolderId, ShowNotice ''Syncing (0%)'']"
    using startSync_frame(3) [OF assms(3)] by (simp add: keeps_pushPrepared_trace)
  have calls: "calls_since t (snd (push h t)) =
      [DriveGetRootFolderId, ShowNotice ''Syncing (0%)''] @ cs @ [DriveBatchDelete ids, ShowNotice deleteErrorNotice]"
    by (simp add: res calls_since_def cs(1) t2)
  have ckpt: "lastSyncedAt t3 = lastSyncedAt t" "changesToken t3 = changesToken t"
    using pulled startSync_frame(1,2) [OF assms(3)]
    by (simp_all add: keeps_checkpoint_def pushPrepared_frame)
  have sub: "set (deletes_of (operations t3)) \<subseteq> set (operations t3)"
    by (auto simp: deletes_of_def)
  have quiet: "filter uploads (calls_since t (snd (push h t))) = []"
    unfolding calls by (simp add: cs(2))
  have after: "snd (push h t) = t3\<lparr>trace := trace t3 @ [DriveBatchDelete ids, ShowNotice deleteErrorNotice]\<rparr>"
    "fst (push h t) = Noticed deleteErrorNotice"
    by (simp_all add: res)
  show ?thesis
    using sub ckpt quiet unfolding after by simp
qed

theorem push_delete_failure_halts_witness:
  "fst (push failing_delete_host one_delete) = Noticed deleteErrorNotice
   \<and> operations (snd (push failing_delete_host one_delete)) = [(''a.md'', Delete)]
   \<and> trace (snd (push failing_delete_host one_delete))
       = [DriveGetRootFolderId, ShowNotice ''Syncing (0%)'', DriveBatchDelete [Some ''id1''],
          ShowNotice deleteErrorNotice]
   \<and> lastSyncedAt (snd (push failing_delete_host one_delete)) = 0
   \<and> changesToken (snd (push failing_delete_host one_delete)) = []"
proof -
  define t2 where "t2 = (emit (ShowNotice ''Syncing (0%)'') ((pushPrepared failing_delete_host one_delete)\<lparr>syncing := True\<rparr>))"
  have prep: "pushPrepared failing_delete_host one_delete = one_delete\<lparr>trace := [DriveGetRootFolderId]\<rparr>"
    by (simp add: pushPrepared_def failing_delete_host_def idle_host_def idle_store_def idle_remote_def
        one_delete_def fresh_def emit_def store_def remote_def hiddenLocalFiles_def getAllVaultFiles_def)
  have start: "startSync failing_delete_host (pushPrepared failing_delete_host one_delete) = Inr t2"
    by (simp add: startSync_def t2_def failing_delete_host_def idle_host_def idle_remote_def remote_def)
  have pulled: "pull failing_delete_host True t2 = (Returned, t2)"
    by (rule silent_pull_idle [of _ "idle_remote\<lparr>batchDelete := (\<lambda>_. False)\<rparr>"])
       (simp_all add: failing_delete_host_def idle_host_def idle_remote_def)
  have t2: "t2 = one_delete\<lparr>syncing := True, trace := [DriveGetRootFolderId, ShowNotice ''Syncing (0%)'']\<rparr>"
    by (simp add: t2_def prep emit_def)
  have set3: "deleteSet failing_delete_host t2 [] = [(''a.md'', Delete)]"
    by (simp add: deleteSet_def deletes_of_def t2 one_delete_def fresh_def)
  have inv3: "invert (driveIdToPath t2) = [(''a.md'', ''id1'')]"
    by (simp add: invert_def fromEntries_def t2 one_delete_def fresh_def)
  from push_delete_failure_halts [of one_delete failing_delete_host t2 t2 "[]" "[Some ''id1'']"]
    start pulled set3 inv3
  show ?thesis
    by (simp add: failing_delete_host_def idle_host_def idle_remote_def remote_def t2 one_delete_def
        fresh_def)
qed

subsection \<open>Push: the index after the delete phase\<close>

text \<open>
  C7, on the code. The log holds \<open>delete\<close> for \<open>a.md\<close>, the index maps \<open>id1\<close> to \<open>a.md\<close>,
  and the batch delete succeeds: the index still maps \<open>id1\<close> to \<open>a.md\<close> after the delete
  phase and at the end of push, because the phase deletes the key \<open>a.md\<close>, a path, from an
  object keyed by ids.
\<close>

theorem push_delete_keeps_index_entry:
  "fst (push idle_host one_delete) = Returned
   \<and> DriveBatchDelete [Some ''id1''] \<in> set (trace (snd (push idle_host one_delete)))
   \<and> fst (pushDeletes idle_host [(''a.md'', Delete)] [(''a.md'', ''id1'')] one_delete)
   \<and> driveIdToPath (snd (pushDeletes idle_host [(''a.md'', Delete)] [(''a.md'', ''id1'')] one_delete))
       = [(''id1'', ''a.md'')]
   \<and> driveIdToPath (snd (push idle_host one_delete)) = [(''id1'', ''a.md'')]
   \<and> operations (snd (push idle_host one_delete)) = []"
proof -
  define t2 where "t2 = one_delete\<lparr>syncing := True, trace := [DriveGetRootFolderId, ShowNotice ''Syncing (0%)'']\<rparr>"
  have prep: "pushPrepared idle_host one_delete = one_delete\<lparr>trace := [DriveGetRootFolderId]\<rparr>"
    by (simp add: pushPrepared_def idle_host_def idle_store_def idle_remote_def
        one_delete_def fresh_def emit_def store_def remote_def hiddenLocalFiles_def getAllVaultFiles_def)
  have start: "startSync idle_host (one_delete\<lparr>trace := [DriveGetRootFolderId]\<rparr>) = Inr t2"
    by (simp add: startSync_def t2_def idle_host_def idle_remote_def remote_def emit_def)
  have pulled: "pull idle_host True t2 = (Returned, t2)"
    by (rule silent_pull_idle [of _ idle_remote]) (simp_all add: idle_host_def idle_remote_def)
  have idle: "\<not> syncing one_delete" "confirmPush idle_host ops" for ops
    by (simp_all add: one_delete_def fresh_def idle_host_def)
  have run: "push idle_host one_delete = pushConfirmed idle_host t2"
    by (simp add: push_def Let_def prep start pulled idle)
  have fin: "pushConfirmed idle_host t2 =
     (Returned, \<lparr>operations = [], driveIdToPath = [(''id1'', ''a.md'')], lastSyncedAt = 0,
        changesToken = ''token'', syncing = False,
        trace = [DriveGetRootFolderId, ShowNotice ''Syncing (0%)'', DriveBatchDelete [Some ''id1''],
                 DriveUpdateSettings None [(''a.md'', Delete)] [(''id1'', ''a.md'')],
                 ShowNotice ''Sync complete!'']\<rparr>)"
    by (simp add: pushConfirmed_def Let_def t2_def one_delete_def fresh_def idle_host_def idle_remote_def
        idle_store_def remote_def store_def deleteSet_def deletes_of_def creates_of_def modifies_of_def
        invert_def fromEntries_def pushDeletes_def emit_def pushCreates_def pushModifies_def
        pushConfigs_def pushFinish_def endSync_def)
  have del: "pushDeletes idle_host [(''a.md'', Delete)] [(''a.md'', ''id1'')] one_delete
      = (True, one_delete\<lparr>trace := [DriveBatchDelete [Some ''id1'']]\<rparr>)"
    by (simp add: pushDeletes_def Let_def one_delete_def fresh_def idle_host_def idle_remote_def
        remote_def emit_def)
  show ?thesis
    unfolding run fin del by (simp add: one_delete_def fresh_def)
qed


subsection \<open>Push: cancelling the confirmation\<close>








end
